theory Spec2Isabelle
  imports Main "HOL-Library.Word" "HOL-Library.Extended_Nat"
begin

section \<open>Bytes, type tags and errors\<close>

type_synonym byte = "8 word"
type_synonym Uint8Array = "byte list"

text \<open>The enum \<open>TYPES\<close> of \<open>constants.js\<close>, one member per kind of value.\<close>

datatype TYPES = NULL | UNDEFINED | BOOLEAN | NUMBER | STRING | STREAM | ARRAY | OBJECT

text \<open>
  Modelled from the spec: \<open>constants.js\<close>, which gives each member of \<open>TYPES\<close> its
  byte, is not among the sources. Section 3 of the specification says that the tag is ``an
  8-way closed enumeration, one fixed byte code per Value variant'' and that ``tags must be
  distinct''. The bytes below are the positions of the members in the list of section 6;
  the decoder compares a tag byte with these codes only for equality, so what matters is
  that they are pairwise distinct (lemma \<open>TYPES_code_inj\<close>).
\<close>

fun TYPES_code :: "TYPES \<Rightarrow> byte" where
  "TYPES_code NULL = 0"
| "TYPES_code UNDEFINED = 1"
| "TYPES_code BOOLEAN = 2"
| "TYPES_code NUMBER = 3"
| "TYPES_code STRING = 4"
| "TYPES_code STREAM = 5"
| "TYPES_code ARRAY = 6"
| "TYPES_code OBJECT = 7"

lemma TYPES_code_inj: "TYPES_code a = TYPES_code b \<longleftrightarrow> a = b"
  by (cases a; cases b) simp_all

text \<open>
  Every \<open>throw\<close> of the two source files, the failures of the byte reader of the
  library \<open>async-iterable-split\<close>, and the \<open>TypeError\<close> that the test
  \<open>Symbol.asyncIterator in value\<close> of \<open>generator\<close> raises when \<open>value\<close> is a primitive, as
  values. The names of the specification are:
  \<open>UnsupportedValue\<close> for \<open>InvalidData\<close> raised by the encoder, \<open>InvalidEncoding\<close> for
  \<open>InvalidData\<close> and \<open>InvalidType\<close> raised by the decoder, \<open>PrematureEnd\<close> for
  \<open>NotEnoughData\<close>, and \<open>LimitExceeded\<close> of stream, string, array and object for
  \<open>SizeExceeded\<close>, \<open>StringSizeExceeded\<close>, \<open>ArrayLengthExceeded\<close> and
  \<open>ObjectLengthExceeded\<close>.
\<close>

datatype error =
    InvalidData              \<comment> \<open>\<open>Error("Invalid data")\<close>\<close>
  | CircularReference        \<comment> \<open>\<open>Error("Circular reference!")\<close>\<close>
  | DepthExceeded            \<comment> \<open>\<open>Error("Depth exceeded ...")\<close>\<close>
  | StringSizeExceeded       \<comment> \<open>\<open>Error("String size exceeded ...")\<close>\<close>
  | ArrayLengthExceeded      \<comment> \<open>\<open>Error("Array length exceeded ...")\<close>\<close>
  | ObjectLengthExceeded     \<comment> \<open>\<open>Error("Object key value pairs count exceeded ...")\<close>\<close>
  | InvalidKey               \<comment> \<open>\<open>Error("Invalid key")\<close>\<close>
  | InvalidType              \<comment> \<open>\<open>Error("Invalid type")\<close>\<close>
  | NotEnoughData            \<comment> \<open>the reader's source ended before the bytes asked for\<close>
  | SizeExceeded             \<comment> \<open>\<open>readChunkedStream\<close> met more bytes than its bound\<close>
  | TypeError                \<comment> \<open>the operator \<open>in\<close> applied to a primitive\<close>

subsection \<open>Big-endian fields\<close>

text \<open>The \<open>k\<close> low bytes of a number, most significant first, and the number of some bytes.\<close>

fun be_bytes :: "nat \<Rightarrow> nat \<Rightarrow> Uint8Array" where
  "be_bytes 0 n = []"
| "be_bytes (Suc k) n = be_bytes k (n div 256) @ [of_nat (n mod 256)]"

definition be_nat :: "Uint8Array \<Rightarrow> nat" where
  "be_nat bs = foldl (\<lambda>acc b. acc * 256 + unat b) 0 bs"

text \<open>
  \<open>DataView.setUint32(0, n, false)\<close>: the number is taken modulo \<open>2 ^ 32\<close> and written
  most significant byte first. \<open>getUint32\<close> reads it back.
\<close>

definition setUint32 :: "nat \<Rightarrow> Uint8Array" where
  "setUint32 n = be_bytes 4 n"

definition getUint32 :: "Uint8Array \<Rightarrow> nat" where
  "getUint32 bs = be_nat (take 4 bs)"

text \<open>
  A JavaScript number is carried as the 64 bits of its IEEE-754 double: \<open>setFloat64\<close>
  writes those bits most significant byte first and \<open>getFloat64\<close> reads them, and no
  arithmetic is done on a number anywhere in the two files.
\<close>

definition setFloat64 :: "64 word \<Rightarrow> Uint8Array" where
  "setFloat64 w = be_bytes 8 (unat w)"

definition getFloat64 :: "Uint8Array \<Rightarrow> 64 word" where
  "getFloat64 bs = of_nat (be_nat (take 8 bs))"

section \<open>The iterators of the encoder\<close>

text \<open>
  What an iterator handed to \<open>CommonIterator\<close> or \<open>StreamIterator\<close> yields: a
  \<open>Uint8Array\<close>, or something else (an async iterable is free to yield anything).
\<close>

datatype item = Piece Uint8Array | NotUint8Array

text \<open>
  A source iterator: the items it still yields, and whether its \<open>next\<close> then throws
  (\<open>Some e\<close>) or reports \<open>done\<close> (\<open>None\<close>). The sources of this program are arrays and the
  iterators of the program itself, which nothing else observes, so what a source will
  yield is fixed when it is created.
\<close>

type_synonym source = "item list \<times> error option"

fun source_next :: "source \<Rightarrow> error + (item option \<times> source)" where
  "source_next (x # xs, e) = Inr (Some x, (xs, e))"
| "source_next ([], None) = Inr (None, ([], None))"
| "source_next ([], Some e) = Inl e"

subsection \<open>CommonIterator\<close>

record CommonIterator =
  c_done :: bool
  c_prefix :: "Uint8Array option"
  c_source :: source

definition new_CommonIterator :: "TYPES \<Rightarrow> source \<Rightarrow> CommonIterator" where
  "new_CommonIterator type src =
     \<lparr>c_done = False, c_prefix = Some [TYPES_code type], c_source = src\<rparr>"

text \<open>\<open>next\<close>: \<open>Inl\<close> is a throw, \<open>Inr (None, _)\<close> is \<open>{done: true}\<close>.\<close>

definition CommonIterator_next ::
  "CommonIterator \<Rightarrow> error + (Uint8Array option \<times> CommonIterator)" where
  "CommonIterator_next it =
     (if c_done it then Inr (None, it)
      else case c_prefix it of
        Some p \<Rightarrow> Inr (Some p, it\<lparr>c_prefix := None\<rparr>)
      | None \<Rightarrow>
         (case source_next (c_source it) of
            Inl e \<Rightarrow> Inl e
          | Inr (None, src) \<Rightarrow> Inr (None, it\<lparr>c_source := src, c_done := True\<rparr>)
          | Inr (Some NotUint8Array, src) \<Rightarrow> Inl InvalidData
          | Inr (Some (Piece v), src) \<Rightarrow> Inr (Some v, it\<lparr>c_source := src\<rparr>)))"

subsection \<open>StreamIterator\<close>

record StreamIterator =
  s_done :: bool
  s_prefix :: "Uint8Array option"
  s_source :: source
  chunkData :: "Uint8Array list"
  chunkSize :: nat
  remain :: "Uint8Array option"

definition new_StreamIterator :: "TYPES \<Rightarrow> source \<Rightarrow> StreamIterator" where
  "new_StreamIterator type src =
     \<lparr>s_done = False, s_prefix = Some [TYPES_code type], s_source = src,
      chunkData = [], chunkSize = 0, remain = None\<rparr>"

text \<open>
  \<open>flushChunk\<close>: the four bytes of the size go in front of the staged data, the
  terminating chunk of size 0 behind it when this is the last chunk and it is not empty.
\<close>

definition flushChunk :: "bool \<Rightarrow> StreamIterator \<Rightarrow> Uint8Array \<times> StreamIterator" where
  "flushChunk dn it =
     (let cd = setUint32 (chunkSize it) # chunkData it;
          cd' = (if chunkSize it \<noteq> 0 \<and> dn then cd @ [[0, 0, 0, 0]] else cd)
      in (concat cd', it\<lparr>chunkData := [], chunkSize := 0\<rparr>))"

text \<open>What is left to read: one for each item of the source and one for each byte.\<close>

fun weight_item :: "item \<Rightarrow> nat" where
  "weight_item (Piece v) = Suc (length v)"
| "weight_item NotUint8Array = 1"

definition weight :: "StreamIterator \<Rightarrow> nat" where
  "weight it =
     sum_list (map weight_item (fst (s_source it)))
       + (case remain it of None \<Rightarrow> 0 | Some r \<Rightarrow> length r)"

text \<open>
  The item \<open>next\<close> works on: the carried-over \<open>remain\<close> when it has bytes
  (\<open>this.remain?.length\<close>), else the next item of the source.
\<close>

definition take_item :: "StreamIterator \<Rightarrow> error + (item option \<times> StreamIterator)" where
  "take_item it =
     (case remain it of
        Some (b # r) \<Rightarrow> Inr (Some (Piece (b # r)), it\<lparr>remain := None\<rparr>)
      | _ \<Rightarrow>
        (case source_next (s_source it) of
           Inl e \<Rightarrow> Inl e
         | Inr (x, src) \<Rightarrow> Inr (x, it\<lparr>s_source := src\<rparr>)))"

text \<open>
  Lines 107 to 116 of \<open>next\<close>: a piece is staged whole when it fits below 4294967295
  bytes; else the part that fits is staged and the rest is kept in \<open>remain\<close>.
\<close>

definition push_piece :: "Uint8Array \<Rightarrow> StreamIterator \<Rightarrow> StreamIterator" where
  "push_piece v it =
     (let space = 4294967295 - chunkSize it in
      if space \<ge> length v then
        it\<lparr>chunkData := chunkData it @ [v], chunkSize := chunkSize it + length v\<rparr>
      else
        it\<lparr>chunkData := chunkData it @ [take space v], chunkSize := 4294967295,
           remain := Some (drop space v)\<rparr>)"

function StreamIterator_next ::
  "StreamIterator \<Rightarrow> error + (Uint8Array option \<times> StreamIterator)" where
  "StreamIterator_next it =
     (if s_done it then Inr (None, it)
      else case s_prefix it of
        Some p \<Rightarrow> Inr (Some p, it\<lparr>s_prefix := None\<rparr>)
      | None \<Rightarrow>
         if chunkSize it \<ge> 65536 then
           (case flushChunk False it of (chunk, it') \<Rightarrow> Inr (Some chunk, it'))
         else
           (case take_item it of
              Inl e \<Rightarrow> Inl e
            | Inr (None, it1) \<Rightarrow>
                (case flushChunk True (it1\<lparr>s_done := True\<rparr>) of
                   (chunk, it') \<Rightarrow> Inr (Some chunk, it'))
            | Inr (Some NotUint8Array, it1) \<Rightarrow> Inl InvalidData
            | Inr (Some (Piece v), it1) \<Rightarrow> StreamIterator_next (push_piece v it1)))"
  by pat_completeness auto

lemma take_item_weight:
  "take_item it = Inr (Some (Piece v), it1) \<Longrightarrow>
     weight it1 + length v \<le> weight it \<and> weight it1 < weight it
     \<and> (remain it1 = None \<or> remain it1 = Some [])"
  by (cases "s_source it" rule: source_next.cases)
     (auto simp: take_item_def weight_def split: option.splits list.splits)

lemma take_item_same:
  "take_item it = Inr (x, it1) \<Longrightarrow>
     chunkSize it1 = chunkSize it \<and> chunkData it1 = chunkData it
     \<and> s_done it1 = s_done it \<and> s_prefix it1 = s_prefix it"
  by (cases "s_source it" rule: source_next.cases)
     (auto simp: take_item_def split: option.splits list.splits)

lemma push_piece_weight:
  assumes "take_item it = Inr (Some (Piece v), it1)" and "\<not> 65536 \<le> chunkSize it"
  shows "weight (push_piece v it1) < weight it"
proof -
  from take_item_same [OF assms(1)] assms(2) have "0 < 4294967295 - chunkSize it1" by simp
  with take_item_weight [OF assms(1)] show ?thesis
    by (auto simp: push_piece_def weight_def Let_def)
qed

lemma push_piece_same:
  "s_done (push_piece v it) = s_done it \<and> s_prefix (push_piece v it) = s_prefix it
     \<and> s_source (push_piece v it) = s_source it"
  by (simp add: push_piece_def Let_def)

termination StreamIterator_next
  by (relation "measure weight") (auto simp: push_piece_weight)

declare StreamIterator_next.simps [simp del]

subsection \<open>Draining an iterator\<close>

text \<open>
  What a consumer receives that calls \<open>next\<close> until \<open>done\<close> or until \<open>next\<close> throws
  (\<open>for await\<close>, \<open>asyncConcat\<close>, or another iterator of this program): the values in
  order, and the error if the iteration ended in a throw.
\<close>

type_synonym trace = "Uint8Array list \<times> error option"

definition c_size :: "CommonIterator \<Rightarrow> nat" where
  "c_size it =
     (if c_done it then 0
      else 1 + (case c_prefix it of None \<Rightarrow> 0 | Some p \<Rightarrow> 1) + length (fst (c_source it)))"

lemma CommonIterator_next_size:
  "CommonIterator_next it = Inr (Some c, it') \<Longrightarrow> c_size it' < c_size it"
  by (cases "c_source it" rule: source_next.cases)
     (auto simp: CommonIterator_next_def c_size_def split: if_splits option.splits item.splits)

function CommonIterator_collect :: "CommonIterator \<Rightarrow> trace" where
  "CommonIterator_collect it =
     (case CommonIterator_next it of
        Inl e \<Rightarrow> ([], Some e)
      | Inr (None, it') \<Rightarrow> ([], None)
      | Inr (Some c, it') \<Rightarrow>
          (case CommonIterator_collect it' of (cs, e) \<Rightarrow> (c # cs, e)))"
  by pat_completeness auto
termination
  by (relation "measure c_size") (auto simp: CommonIterator_next_size)

declare CommonIterator_collect.simps [simp del]

definition s_size :: "StreamIterator \<Rightarrow> nat" where
  "s_size it =
     (if s_done it then 0 else 1) + (case s_prefix it of None \<Rightarrow> 0 | Some p \<Rightarrow> 1)
       + 2 * weight it + (if chunkSize it \<ge> 65536 then 1 else 0)"

lemma take_item_weight_le: "take_item it = Inr (x, it1) \<Longrightarrow> weight it1 \<le> weight it"
  by (cases "s_source it" rule: source_next.cases)
     (auto simp: take_item_def weight_def split: option.splits list.splits)

lemma StreamIterator_next_size:
  "StreamIterator_next it = Inr (Some c, it') \<Longrightarrow> s_size it' < s_size it"
proof (induction it arbitrary: c it' rule: StreamIterator_next.induct)
  case (1 it)
  note nx = "1.prems" [unfolded StreamIterator_next.simps [of it]]
  show ?case
  proof (cases "s_done it \<or> s_prefix it \<noteq> None \<or> chunkSize it \<ge> 65536")
    case True
    with nx show ?thesis
      by (auto simp: s_size_def flushChunk_def Let_def weight_def split: if_splits option.splits)
  next
    case False
    then have f: "\<not> s_done it" "s_prefix it = None" "\<not> chunkSize it \<ge> 65536" by auto
    show ?thesis
    proof (cases "take_item it")
      case (Inl e)
      with nx f show ?thesis by simp
    next
      case (Inr r)
      obtain x it1 where r: "r = (x, it1)" by (cases r)
      note t = Inr [unfolded r]
      note same = take_item_same [OF t]
      show ?thesis
      proof (cases x)
        case None
        with nx f t take_item_weight_le [OF t] same show ?thesis
          by (auto simp: s_size_def flushChunk_def Let_def weight_def split: if_splits)
      next
        case (Some y)
        show ?thesis
        proof (cases y)
          case NotUint8Array
          with nx f t Some show ?thesis by simp
        next
          case (Piece v)
          note tp = t [unfolded Some Piece]
          from nx f tp have "StreamIterator_next (push_piece v it1) = Inr (Some c, it')"
            by simp
          from "1.IH" [OF f(1) f(2) f(3) Inr r [symmetric] Some Piece this]
          have "s_size it' < s_size (push_piece v it1)" .
          moreover from push_piece_weight [OF tp f(3)] push_piece_same [of v it1] same f
          have "s_size (push_piece v it1) < s_size it"
            by (auto simp: s_size_def)
          ultimately show ?thesis by simp
        qed
      qed
    qed
  qed
qed

function StreamIterator_collect :: "StreamIterator \<Rightarrow> trace" where
  "StreamIterator_collect it =
     (case StreamIterator_next it of
        Inl e \<Rightarrow> ([], Some e)
      | Inr (None, it') \<Rightarrow> ([], None)
      | Inr (Some c, it') \<Rightarrow>
          (case StreamIterator_collect it' of (cs, e) \<Rightarrow> (c # cs, e)))"
  by pat_completeness auto
termination
  by (relation "measure s_size") (auto simp: StreamIterator_next_size)

declare StreamIterator_collect.simps [simp del]

subsection \<open>Vocabulary for the iterators' properties\<close>

text \<open>
  A chunk as it stands on the wire: four bytes of length, then the data. The bytes a
  source yields before it fails, the failure it ends in, and the bytes a
  \<open>StreamIterator\<close> has not emitted yet.
\<close>

definition frame :: "Uint8Array \<Rightarrow> Uint8Array" where
  "frame c = setUint32 (length c) @ c"

fun item_bytes :: "item \<Rightarrow> Uint8Array" where
  "item_bytes (Piece v) = v"
| "item_bytes NotUint8Array = []"

definition source_bytes :: "source \<Rightarrow> Uint8Array" where
  "source_bytes src = concat (map item_bytes (takeWhile (\<lambda>x. x \<noteq> NotUint8Array) (fst src)))"

definition source_error :: "source \<Rightarrow> error option" where
  "source_error src = (if NotUint8Array \<in> set (fst src) then Some InvalidData else snd src)"

definition carried :: "StreamIterator \<Rightarrow> Uint8Array" where
  "carried it = (case remain it of None \<Rightarrow> [] | Some r \<Rightarrow> r)"

definition pending :: "StreamIterator \<Rightarrow> Uint8Array" where
  "pending it = concat (chunkData it) @ carried it @ source_bytes (s_source it)"

definition staging :: "StreamIterator \<Rightarrow> bool" where
  "staging it \<longleftrightarrow> \<not> s_done it \<and> s_prefix it = None
     \<and> chunkSize it = length (concat (chunkData it)) \<and> chunkSize it \<le> 4294967295"

definition final_frame :: "Uint8Array \<Rightarrow> Uint8Array" where
  "final_frame c = frame c @ (if c = [] then [] else [0, 0, 0, 0])"

definition chunked :: "Uint8Array list \<Rightarrow> Uint8Array \<Rightarrow> error option \<Rightarrow> trace" where
  "chunked cs c err =
     (case err of None \<Rightarrow> (map frame cs @ [final_frame c], None)
      | Some e \<Rightarrow> (map frame cs, Some e))"

definition next_ok :: "StreamIterator \<Rightarrow> error + (Uint8Array option \<times> StreamIterator) \<Rightarrow> bool" where
  "next_ok it r =
     (case r of
        Inl e \<Rightarrow> source_error (s_source it) = Some e \<and> length (pending it) < 65536
      | Inr (None, it') \<Rightarrow> False
      | Inr (Some chunk, it') \<Rightarrow>
          if s_done it' then
            source_error (s_source it) = None \<and> length (pending it) < 65536
            \<and> chunk = frame (pending it) @ (if pending it = [] then [] else [0, 0, 0, 0])
          else
            staging it' \<and> source_error (s_source it') = source_error (s_source it)
            \<and> (\<exists>c. chunk = frame c \<and> 65536 \<le> length c \<and> length c \<le> 4294967295
                   \<and> pending it = c @ pending it'))"

section \<open>Properties of the encoder's iterators\<close>

subsection \<open>Big-endian fields\<close>

lemma length_be_bytes [simp]: "length (be_bytes k n) = k"
  by (induction k arbitrary: n) auto

lemma be_nat_append: "be_nat (bs @ [b]) = be_nat bs * 256 + unat b"
  by (simp add: be_nat_def)

lemma be_nat_be_bytes: "be_nat (be_bytes k n) = n mod 256 ^ k"
proof (induction k arbitrary: n)
  case 0
  show ?case by (simp add: be_nat_def)
next
  case (Suc k)
  have "n mod (256 * 256 ^ k) = (n div 256 mod 256 ^ k) * 256 + n mod 256"
    by (simp add: mod_mult2_eq)
  then show ?case
    by (simp add: be_nat_append Suc unat_of_nat)
qed

lemma length_setUint32 [simp]: "length (setUint32 n) = 4"
  by (simp add: setUint32_def)

lemma getUint32_setUint32: "n < 4294967296 \<Longrightarrow> getUint32 (setUint32 n @ bs) = n"
  by (simp add: getUint32_def setUint32_def be_nat_be_bytes)

lemma length_setFloat64 [simp]: "length (setFloat64 w) = 8"
  by (simp add: setFloat64_def)

lemma setUint32_bytes:
  "setUint32 n = [of_nat (n div 256 div 256 div 256 mod 256), of_nat (n div 256 div 256 mod 256),
      of_nat (n div 256 mod 256), of_nat (n mod 256)]"
proof -
  have 4: "(4::nat) = Suc (Suc (Suc (Suc 0)))" by simp
  show ?thesis unfolding setUint32_def 4 by simp
qed

lemma setUint32_0: "setUint32 0 = [0, 0, 0, 0]"
  by (simp add: setUint32_bytes)

lemma getFloat64_setFloat64: "getFloat64 (setFloat64 w @ bs) = w"
proof -
  have "unat w < 2 ^ 64" using unsigned_less [of w] by simp
  then have "unat w mod 256 ^ 8 = unat w" by simp
  then show ?thesis
    by (simp add: getFloat64_def setFloat64_def be_nat_be_bytes)
qed

subsection \<open>StreamIterator: what \<open>next\<close> returns\<close>

lemma frame_Nil: "frame [] = [0, 0, 0, 0]"
  by (simp add: frame_def setUint32_0)

lemma next_flush:
  "staging it \<Longrightarrow> 65536 \<le> chunkSize it \<Longrightarrow>
   StreamIterator_next it =
     Inr (Some (frame (concat (chunkData it))), it\<lparr>chunkData := [], chunkSize := 0\<rparr>)"
  by (simp add: StreamIterator_next.simps [of it] staging_def flushChunk_def frame_def)

lemma next_take:
  "staging it \<Longrightarrow> \<not> 65536 \<le> chunkSize it \<Longrightarrow>
   StreamIterator_next it =
     (case take_item it of
        Inl e \<Rightarrow> Inl e
      | Inr (None, it1) \<Rightarrow>
          Inr (Some (frame (concat (chunkData it1))
                       @ (if chunkSize it1 = 0 then [] else [0, 0, 0, 0])),
               it1\<lparr>s_done := True, chunkData := [], chunkSize := 0\<rparr>)
      | Inr (Some NotUint8Array, it1) \<Rightarrow> Inl InvalidData
      | Inr (Some (Piece v), it1) \<Rightarrow> StreamIterator_next (push_piece v it1))"
  by (cases "take_item it")
     (auto simp: StreamIterator_next.simps [of it] staging_def flushChunk_def frame_def
        dest: take_item_same split: option.splits item.splits)

lemma take_item_cases:
  obtains (carry) b r where "remain it = Some (b # r)"
      "take_item it = Inr (Some (Piece (b # r)), it\<lparr>remain := None\<rparr>)"
  | (piece) v xs e where "carried it = []" "s_source it = (Piece v # xs, e)"
      "take_item it = Inr (Some (Piece v), it\<lparr>s_source := (xs, e)\<rparr>)"
  | (junk) xs e where "carried it = []" "s_source it = (NotUint8Array # xs, e)"
      "take_item it = Inr (Some NotUint8Array, it\<lparr>s_source := (xs, e)\<rparr>)"
  | (ended) "carried it = []" "s_source it = ([], None)"
      "take_item it = Inr (None, it\<lparr>s_source := ([], None)\<rparr>)"
  | (thrown) e where "carried it = []" "s_source it = ([], Some e)" "take_item it = Inl e"
proof (cases "remain it")
  case None
  then show ?thesis
    by (cases "s_source it" rule: source_next.cases; cases "hd (fst (s_source it))")
       (auto simp: take_item_def carried_def intro: that)
next
  case (Some r)
  then show ?thesis
    by (cases r; cases "s_source it" rule: source_next.cases; cases "hd (fst (s_source it))")
       (auto simp: take_item_def carried_def intro: that)
qed

lemma push_piece_staging:
  "staging it \<Longrightarrow> staging (push_piece v it)"
  by (auto simp: staging_def push_piece_def Let_def)

lemma push_piece_pending:
  "carried it = [] \<Longrightarrow>
   pending (push_piece v it) = concat (chunkData it) @ v @ source_bytes (s_source it)"
  by (auto simp: pending_def push_piece_def Let_def carried_def)

lemma next_staging: "staging it \<Longrightarrow> next_ok it (StreamIterator_next it)"
proof (induction "weight it" arbitrary: it rule: less_induct)
  case less
  note st = less.prems
  show ?case
  proof (cases "65536 \<le> chunkSize it")
    case True
    with st show ?thesis
      by (auto simp: next_flush next_ok_def staging_def pending_def carried_def)
  next
    case False
    note nt = next_take [OF st False]
    have IH: "next_ok it (StreamIterator_next (push_piece v it1))"
      if t: "take_item it = Inr (Some (Piece v), it1)" and c: "carried it1 = []"
        and p: "concat (chunkData it) @ v @ source_bytes (s_source it1) = pending it"
        and e: "source_error (s_source it1) = source_error (s_source it)"
      for v it1
    proof -
      have s1: "staging it1" using st take_item_same [OF t] by (simp add: staging_def)
      have w: "weight (push_piece v it1) < weight it" by (rule push_piece_weight [OF t False])
      have "next_ok (push_piece v it1) (StreamIterator_next (push_piece v it1))"
        by (rule less.hyps [OF w push_piece_staging [OF s1]])
      moreover have "pending (push_piece v it1) = pending it"
        using push_piece_pending [OF c, of v] p take_item_same [OF t] by simp
      moreover have "s_source (push_piece v it1) = s_source it1"
        by (simp add: push_piece_same)
      ultimately show ?thesis
        using e by (auto simp: next_ok_def split: sum.splits option.splits if_splits)
    qed
    show ?thesis
    proof (cases it rule: take_item_cases)
      case (carry b r)
      have "next_ok it (StreamIterator_next (push_piece (b # r) (it\<lparr>remain := None\<rparr>)))"
        by (rule IH [OF carry(2)]) (simp_all add: carried_def pending_def carry(1))
      with nt carry show ?thesis by simp
    next
      case (piece v xs e)
      have "next_ok it (StreamIterator_next (push_piece v (it\<lparr>s_source := (xs, e)\<rparr>)))"
        using piece(1)
        by (intro IH [OF piece(3)])
           (simp_all add: carried_def pending_def piece(2) source_bytes_def source_error_def)
      with nt piece show ?thesis by simp
    next
      case (junk xs e)
      with nt st False show ?thesis
        by (simp add: next_ok_def source_error_def pending_def source_bytes_def staging_def)
    next
      case ended
      with nt st False show ?thesis
        by (auto simp: next_ok_def source_error_def pending_def source_bytes_def staging_def)
    next
      case (thrown e)
      with nt st False show ?thesis
        by (simp add: next_ok_def source_error_def pending_def source_bytes_def staging_def)
    qed
  qed
qed


lemma collect_done: "s_done it \<Longrightarrow> StreamIterator_collect it = ([], None)"
  by (simp add: StreamIterator_collect.simps [of it] StreamIterator_next.simps [of it])

lemma collect_staging:
  "staging it \<Longrightarrow>
   \<exists>cs c. pending it = concat cs @ c
     \<and> (\<forall>c\<in>set cs. 65536 \<le> length c \<and> length c \<le> 4294967295) \<and> length c < 65536
     \<and> StreamIterator_collect it = chunked cs c (source_error (s_source it))"
proof (induction "s_size it" arbitrary: it rule: less_induct)
  case less
  note ok = next_staging [OF less.prems]
  show ?case
  proof (cases "StreamIterator_next it")
    case (Inl e)
    with ok have "source_error (s_source it) = Some e" "length (pending it) < 65536"
      by (simp_all add: next_ok_def)
    moreover from Inl have "StreamIterator_collect it = ([], Some e)"
      by (simp add: StreamIterator_collect.simps [of it])
    ultimately show ?thesis
      by (intro exI [of _ "[]"] exI [of _ "pending it"]) (simp add: chunked_def)
  next
    case (Inr r)
    obtain x it' where r: "r = (x, it')" by (cases r)
    from ok Inr r obtain chunk where x: "x = Some chunk"
      by (cases x) (auto simp: next_ok_def)
    note nx = Inr [unfolded r x]
    have col: "StreamIterator_collect it =
        (case StreamIterator_collect it' of (cs, e) \<Rightarrow> (chunk # cs, e))"
      by (simp add: StreamIterator_collect.simps [of it] nx)
    show ?thesis
    proof (cases "s_done it'")
      case True
      with ok nx have "source_error (s_source it) = None" "length (pending it) < 65536"
        "chunk = final_frame (pending it)"
        by (simp_all add: next_ok_def final_frame_def)
      with col collect_done [OF True] show ?thesis
        by (intro exI [of _ "[]"] exI [of _ "pending it"]) (simp add: chunked_def)
    next
      case False
      with ok nx obtain c where c: "staging it'"
        "source_error (s_source it') = source_error (s_source it)"
        "chunk = frame c" "65536 \<le> length c" "length c \<le> 4294967295"
        "pending it = c @ pending it'"
        by (auto simp: next_ok_def)
      from less.hyps [OF StreamIterator_next_size [OF nx] c(1)]
      obtain cs d where d: "pending it' = concat cs @ d"
        "\<forall>c\<in>set cs. 65536 \<le> length c \<and> length c \<le> 4294967295" "length d < 65536"
        "StreamIterator_collect it' = chunked cs d (source_error (s_source it'))"
        by blast
      with c col show ?thesis
        by (intro exI [of _ "c # cs"] exI [of _ d])
           (auto simp: chunked_def split: option.splits)
    qed
  qed
qed

lemma collect_prefix:
  "\<not> s_done it \<Longrightarrow> s_prefix it = Some p \<Longrightarrow>
   StreamIterator_collect it =
     (case StreamIterator_collect (it\<lparr>s_prefix := None\<rparr>) of (out, e) \<Rightarrow> (p # out, e))"
  by (simp add: StreamIterator_collect.simps [of it] StreamIterator_next.simps [of it])

lemma new_StreamIterator_collect:
  "\<exists>cs c. source_bytes src = concat cs @ c
     \<and> (\<forall>c\<in>set cs. 65536 \<le> length c \<and> length c \<le> 4294967295) \<and> length c < 65536
     \<and> StreamIterator_collect (new_StreamIterator type src) =
         (case chunked cs c (source_error src) of (out, e) \<Rightarrow> ([TYPES_code type] # out, e))"
proof -
  let ?it = "(new_StreamIterator type src)\<lparr>s_prefix := None\<rparr>"
  have "staging ?it" by (simp add: staging_def new_StreamIterator_def)
  from collect_staging [OF this] obtain cs c where
    "pending ?it = concat cs @ c"
    "\<forall>c\<in>set cs. 65536 \<le> length c \<and> length c \<le> 4294967295" "length c < 65536"
    "StreamIterator_collect ?it = chunked cs c (source_error (s_source ?it))"
    by blast
  moreover have "pending ?it = source_bytes src"
    by (simp add: pending_def carried_def new_StreamIterator_def)
  moreover have "StreamIterator_collect (new_StreamIterator type src) =
      (case StreamIterator_collect ?it of (out, e) \<Rightarrow> ([TYPES_code type] # out, e))"
    by (rule collect_prefix) (simp_all add: new_StreamIterator_def)
  ultimately show ?thesis
    by (intro exI [of _ cs] exI [of _ c]) (simp add: new_StreamIterator_def)
qed

section \<open>Strings and the platform's UTF-8 codec\<close>

text \<open>
  A JavaScript string is modelled by the sequence of its code points as the platform's
  UTF-8 encoder reads the string: a surrogate pair counts as the one code point it stands
  for, and a surrogate code unit that is in no pair stands for itself, a number from
  55296 to 57343. \<open>TextEncoder.encode\<close> writes the bytes of U+FFFD for such a lone
  surrogate and the UTF-8 bytes of every other code point.
\<close>

type_synonym codepoint = nat
type_synonym jsstring = "codepoint list"

definition is_surrogate :: "codepoint \<Rightarrow> bool" where
  "is_surrogate c \<longleftrightarrow> 55296 \<le> c \<and> c \<le> 57343"

definition scalar_value :: "codepoint \<Rightarrow> bool" where
  "scalar_value c \<longleftrightarrow> c < 1114112 \<and> \<not> is_surrogate c"

definition utf8_bytes :: "codepoint \<Rightarrow> Uint8Array" where
  "utf8_bytes c =
     (let c1 = c div 64; c2 = c1 div 64; c3 = c2 div 64 in
      if c < 128 then [of_nat c]
      else if c < 2048 then [of_nat (192 + c1), of_nat (128 + c mod 64)]
      else if c < 65536 then
        [of_nat (224 + c2), of_nat (128 + c1 mod 64), of_nat (128 + c mod 64)]
      else
        [of_nat (240 + c3), of_nat (128 + c2 mod 64), of_nat (128 + c1 mod 64),
         of_nat (128 + c mod 64)])"

definition TextEncoder_encode :: "jsstring \<Rightarrow> Uint8Array" where
  "TextEncoder_encode s =
     concat (map (\<lambda>c. utf8_bytes (if is_surrogate c then 65533 else c)) s)"

text \<open>
  \<open>new TextDecoder("utf-8")\<close>, with \<open>fatal\<close> and \<open>ignoreBOM\<close> at their default
  \<open>false\<close>, is the UTF-8 decoder of the Encoding Standard: its state, its handler for
  one byte, and the loop over the bytes, in which a byte that breaks off a sequence is
  read again after U+FFFD has been emitted for the sequence. At the end of the bytes an
  unfinished sequence gives one more U+FFFD, unless the call is \<open>{stream: true}\<close>: the
  STRING branch of \<open>parser\<close> decodes every chunk with \<open>{stream: true}\<close> and never makes
  the closing call, so a string is decoded by \<open>TextDecoder_decode True\<close> from the whole
  payload, and a key by \<open>TextDecoder_decode False\<close>. Since \<open>ignoreBOM\<close> is \<open>false\<close>, a
  U+FEFF at the very start of the decoded text is not passed on.
\<close>

record utf8_decoder =
  code_point :: nat
  bytes_seen :: nat
  bytes_needed :: nat
  lower_boundary :: nat
  upper_boundary :: nat

definition utf8_decoder_init :: utf8_decoder where
  "utf8_decoder_init =
     \<lparr>code_point = 0, bytes_seen = 0, bytes_needed = 0,
      lower_boundary = 128, upper_boundary = 191\<rparr>"

datatype utf8_result = Continue | Emit codepoint | Error | ErrorRestore

definition utf8_handler :: "utf8_decoder \<Rightarrow> nat \<Rightarrow> utf8_result \<times> utf8_decoder" where
  "utf8_handler d byte =
     (if bytes_needed d = 0 then
        if byte \<le> 127 then (Emit byte, d)
        else if 194 \<le> byte \<and> byte \<le> 223 then
          (Continue, d\<lparr>bytes_needed := 1, code_point := byte mod 32\<rparr>)
        else if 224 \<le> byte \<and> byte \<le> 239 then
          (Continue,
           d\<lparr>lower_boundary := (if byte = 224 then 160 else lower_boundary d),
             upper_boundary := (if byte = 237 then 159 else upper_boundary d),
             bytes_needed := 2, code_point := byte mod 16\<rparr>)
        else if 240 \<le> byte \<and> byte \<le> 244 then
          (Continue,
           d\<lparr>lower_boundary := (if byte = 240 then 144 else lower_boundary d),
             upper_boundary := (if byte = 244 then 143 else upper_boundary d),
             bytes_needed := 3, code_point := byte mod 8\<rparr>)
        else (Error, d)
      else if byte < lower_boundary d \<or> upper_boundary d < byte then
        (ErrorRestore, utf8_decoder_init)
      else
        (let d' = d\<lparr>lower_boundary := 128, upper_boundary := 191,
                      code_point := code_point d * 64 + byte mod 64,
                      bytes_seen := bytes_seen d + 1\<rparr>
         in if bytes_seen d' \<noteq> bytes_needed d' then (Continue, d')
            else (Emit (code_point d'), utf8_decoder_init)))"

lemma utf8_handler_restore:
  "utf8_handler d byte = (ErrorRestore, d') \<Longrightarrow> bytes_needed d \<noteq> 0 \<and> bytes_needed d' = 0"
  by (auto simp: utf8_handler_def utf8_decoder_init_def Let_def split: if_splits)

function utf8_decode :: "bool \<Rightarrow> utf8_decoder \<Rightarrow> Uint8Array \<Rightarrow> jsstring" where
  "utf8_decode flush d [] = (if flush \<and> bytes_needed d \<noteq> 0 then [65533] else [])"
| "utf8_decode flush d (b # bs) =
     (case utf8_handler d (unat b) of
        (Continue, d') \<Rightarrow> utf8_decode flush d' bs
      | (Emit c, d') \<Rightarrow> c # utf8_decode flush d' bs
      | (Error, d') \<Rightarrow> 65533 # utf8_decode flush d' bs
      | (ErrorRestore, d') \<Rightarrow> 65533 # utf8_decode flush d' (b # bs))"
  by pat_completeness auto
termination
  by (relation "measure (\<lambda>(flush, d, bs). 2 * length bs + (if bytes_needed d = 0 then 0 else 1))")
     (auto dest!: utf8_handler_restore [OF sym])

fun strip_bom :: "jsstring \<Rightarrow> jsstring" where
  "strip_bom (c # cs) = (if c = 65279 then cs else c # cs)"
| "strip_bom [] = []"

definition TextDecoder_decode :: "bool \<Rightarrow> Uint8Array \<Rightarrow> jsstring" where
  "TextDecoder_decode stream bs = strip_bom (utf8_decode (\<not> stream) utf8_decoder_init bs)"

lemma ub: "n < 256 \<Longrightarrow> unat (of_nat n :: byte) = n"
  by (simp add: unat_of_nat)

lemma lead_mod:
  "x < 32 \<Longrightarrow> (192 + x) mod 32 = (x::nat)"
  "x < 16 \<Longrightarrow> (224 + x) mod 16 = (x::nat)"
  "x < 8 \<Longrightarrow> (240 + x) mod 8 = (x::nat)"
  "x < 64 \<Longrightarrow> (128 + x) mod 64 = (x::nat)"
  using mod_mult_self3 [of 6 32 x] mod_mult_self3 [of 14 16 x]
    mod_mult_self3 [of 30 8 x] mod_mult_self3 [of 2 64 x] by simp_all

definition pending_cp :: "nat \<Rightarrow> nat \<Rightarrow> nat \<Rightarrow> nat \<Rightarrow> nat \<Rightarrow> utf8_decoder" where
  "pending_cp c s n lo hi =
     \<lparr>code_point = c, bytes_seen = s, bytes_needed = n, lower_boundary = lo, upper_boundary = hi\<rparr>"

lemma h1: "a < 128 \<Longrightarrow> utf8_handler utf8_decoder_init a = (Emit a, utf8_decoder_init)"
  by (simp add: utf8_handler_def utf8_decoder_init_def)

lemma h2: "2 \<le> a \<Longrightarrow> a < 32 \<Longrightarrow>
  utf8_handler utf8_decoder_init (192 + a) = (Continue, pending_cp a 0 1 128 191)"
  by (simp add: utf8_handler_def utf8_decoder_init_def pending_cp_def lead_mod)

lemma h3: "a < 16 \<Longrightarrow>
  utf8_handler utf8_decoder_init (224 + a) =
    (Continue, pending_cp a 0 2 (if a = 0 then 160 else 128) (if a = 13 then 159 else 191))"
  by (simp add: utf8_handler_def utf8_decoder_init_def pending_cp_def lead_mod)

lemma h4: "a \<le> 4 \<Longrightarrow>
  utf8_handler utf8_decoder_init (240 + a) =
    (Continue, pending_cp a 0 3 (if a = 0 then 144 else 128) (if a = 4 then 143 else 191))"
  by (simp add: utf8_handler_def utf8_decoder_init_def pending_cp_def lead_mod)

lemma hc: "lo \<le> 128 + b \<Longrightarrow> 128 + b \<le> hi \<Longrightarrow> b < 64 \<Longrightarrow> s < n \<Longrightarrow>
  utf8_handler (pending_cp c s n lo hi) (128 + b) =
    (if Suc s = n then (Emit (c * 64 + b), utf8_decoder_init)
     else (Continue, pending_cp (c * 64 + b) (Suc s) n 128 191))"
  by (simp add: utf8_handler_def utf8_decoder_init_def pending_cp_def lead_mod Let_def)


lemma utf8_decode_bytes:
  assumes "scalar_value c"
  shows "utf8_decode f utf8_decoder_init (utf8_bytes c @ bs) = c # utf8_decode f utf8_decoder_init bs"
proof -
  define c1 where "c1 = c div 64"
  define c2 where "c2 = c1 div 64"
  define c3 where "c3 = c2 div 64"
  have c: "c = c1 * 64 + c mod 64" and c1: "c1 = c2 * 64 + c1 mod 64"
    and c2: "c2 = c3 * 64 + c2 mod 64"
    by (simp_all add: c1_def c2_def c3_def)
  have m: "c mod 64 < 64" "c1 mod 64 < 64" "c2 mod 64 < 64" by simp_all
  have bytes: "utf8_bytes c =
     (if c < 128 then [of_nat c]
      else if c < 2048 then [of_nat (192 + c1), of_nat (128 + c mod 64)]
      else if c < 65536 then
        [of_nat (224 + c2), of_nat (128 + c1 mod 64), of_nat (128 + c mod 64)]
      else
        [of_nat (240 + c3), of_nat (128 + c2 mod 64), of_nat (128 + c1 mod 64),
         of_nat (128 + c mod 64)])"
    by (simp add: utf8_bytes_def Let_def c1_def c2_def c3_def del: of_nat_add)
  note [simp del] = of_nat_add
  note [simp] = ub h1 h2 h3 h4 hc
  consider "c < 128" | "128 \<le> c" "c < 2048" | "2048 \<le> c" "c < 65536" | "65536 \<le> c" "c < 1114112"
    using assms by (auto simp: scalar_value_def) linarith
  then show ?thesis
  proof cases
    case 1
    then show ?thesis by (simp add: bytes)
  next
    case 2
    with c m have "2 \<le> c1" "c1 < 32" by linarith+
    moreover have "c1 * 64 + c mod 64 = c" using c by simp
    ultimately show ?thesis using 2 m by (simp add: bytes)
  next
    case 3
    with c c1 m have a: "c2 < 16" "c2 = 0 \<Longrightarrow> 32 \<le> c1 mod 64" by linarith+
    from assms c c1 m have s: "c2 = 13 \<Longrightarrow> c1 mod 64 < 32"
      unfolding scalar_value_def is_surrogate_def by linarith
    have lo: "(if c2 = 0 then 160 else 128) \<le> 128 + c1 mod 64" using a(2) by (cases "c2 = 0") simp_all
    have hi: "128 + c1 mod 64 \<le> (if c2 = 13 then 159 else 191)" using s m(2) by (cases "c2 = 13") simp_all
    have "(c2 * 64 + c1 mod 64) * 64 + c mod 64 = c" using c c1 by simp
    with a(1) lo hi 3 m show ?thesis
      by (simp add: bytes)
  next
    case 4
    with c c1 c2 m have a: "c3 \<le> 4" "c3 = 0 \<Longrightarrow> 16 \<le> c2 mod 64"
      "c3 = 4 \<Longrightarrow> c2 mod 64 < 16" by linarith+
    have lo: "(if c3 = 0 then 144 else 128) \<le> 128 + c2 mod 64"
      using a(2) by (cases "c3 = 0") simp_all
    have hi: "128 + c2 mod 64 \<le> (if c3 = 4 then 143 else 191)"
      using a(3) m(3) by (cases "c3 = 4") simp_all
    have "((c3 * 64 + c2 mod 64) * 64 + c1 mod 64) * 64 + c mod 64 = c" using c c1 c2 by simp
    with a(1) lo hi 4 m show ?thesis
      by (simp add: bytes)
  qed
qed


lemma utf8_decode_encode:
  "\<forall>c\<in>set s. scalar_value c \<Longrightarrow>
   utf8_decode f utf8_decoder_init (TextEncoder_encode s @ bs) =
     s @ utf8_decode f utf8_decoder_init bs"
proof (induction s)
  case Nil
  show ?case by (simp add: TextEncoder_encode_def)
next
  case (Cons c s)
  then have "scalar_value c" "\<not> is_surrogate c" by (simp_all add: scalar_value_def)
  with Cons show ?case
    using utf8_decode_bytes [of c f "TextEncoder_encode s @ bs"]
    by (simp add: TextEncoder_encode_def)
qed

lemma TextDecoder_decode_encode:
  "\<forall>c\<in>set s. scalar_value c \<Longrightarrow>
   TextDecoder_decode stream (TextEncoder_encode s) = strip_bom s"
  using utf8_decode_encode [of s "\<not> stream" "[]"]
  by (simp add: TextDecoder_decode_def utf8_decoder_init_def)

section \<open>JavaScript values\<close>

text \<open>
  The values \<open>generator\<close> tells apart, in the order of its tests: \<open>null\<close>, \<open>undefined\<close>,
  a boolean or a \<open>Boolean\<close> object, a number or a \<open>Number\<close> object, a string or a
  \<open>String\<close> object, a \<open>Uint8Array\<close>, an object with \<open>Symbol.asyncIterator\<close> (given by
  the items its iteration yields before it ends), an array or an object whose tag is
  \<open>[object Object]\<close>, and \<open>JOther\<close> for what is left: a function, or an object with
  another tag such as a \<open>Date\<close> or a \<open>Map\<close>. The two remaining kinds of primitive, a
  \<open>BigInt\<close> and a \<open>Symbol\<close>, never get that far: they pass the tests for the other
  primitives, and the test \<open>Symbol.asyncIterator in value\<close> throws a \<open>TypeError\<close> for
  them.

  Arrays and objects have identity and may contain one another, so they live in a heap
  and a value refers to them by address (\<open>JRef\<close>). An array is the list of its elements;
  an object is the list of the keys that \<open>for (const key in value)\<close> enumerates, in
  that order, each with its value, so the keys of one object are distinct. A \<open>JRef\<close> to
  an address outside the heap stands for no object and is treated like \<open>JOther\<close>. The
  other objects (wrapper objects, byte arrays, iterables, \<open>JOther\<close>) are taken to have no
  enumerable property that holds an array or an object.
\<close>

type_synonym addr = nat

datatype jsval =
    JNull
  | JUndefined
  | JBoolean bool
  | JNumber "64 word"
  | JString jsstring
  | JBooleanObject bool
  | JNumberObject "64 word"
  | JStringObject jsstring
  | JUint8Array Uint8Array
  | JAsyncIterable "item list"
  | JRef addr
  | JOther
  | JBigInt
  | JSymbol

datatype jsobj = JArray "jsval list" | JObject "(jsstring \<times> jsval) list"

type_synonym heap = "jsobj list"

definition lookup :: "heap \<Rightarrow> addr \<Rightarrow> jsobj option" where
  "lookup h a = (if a < length h then Some (h ! a) else None)"

fun properties :: "jsobj \<Rightarrow> jsval list" where
  "properties (JArray xs) = xs"
| "properties (JObject kvs) = map snd kvs"

definition children :: "heap \<Rightarrow> addr \<Rightarrow> jsval list" where
  "children h a = (case lookup h a of None \<Rightarrow> [] | Some ob \<Rightarrow> properties ob)"

text \<open>
  \<open>hasCircular\<close>: \<open>refs\<close> holds the objects on the path from the value the traversal
  started at down to the current one (the source adds an object before it visits its
  properties and deletes it afterwards). Only arrays and objects of the heap have
  properties to visit.
\<close>

function hasCircular :: "heap \<Rightarrow> jsval \<Rightarrow> addr set \<Rightarrow> bool" where
  "hasCircular h value refs =
     (case value of
        JRef a \<Rightarrow>
          if a \<in> refs then True
          else (\<exists>x \<in> set (children h a). hasCircular h x (insert a refs))
      | _ \<Rightarrow> False)"
  by pat_completeness auto
termination
proof (relation "measure (\<lambda>(h, value, refs). card ({..<length h} - refs))")
  show "wf (measure (\<lambda>(h, value, refs). card ({..<length h} - refs)))" by simp
next
  fix h :: heap and "value" refs a x
  assume "a \<notin> refs" and x: "x \<in> set (children h a)"
  from x have "a < length h"
    by (auto simp: children_def lookup_def split: if_splits)
  with \<open>a \<notin> refs\<close> have "{..<length h} - insert a refs \<subset> {..<length h} - refs" by auto
  then have "card ({..<length h} - insert a refs) < card ({..<length h} - refs)"
    by (intro psubset_card_mono) auto
  then show "((h, x, insert a refs), h, value, refs)
      \<in> measure (\<lambda>(h, value, refs). card ({..<length h} - refs))"
    by simp
qed

declare hasCircular.simps [simp del]

lemma hasCircular_JRef:
  "hasCircular h (JRef a) refs \<longleftrightarrow>
     a \<in> refs \<or> (\<exists>x \<in> set (children h a). hasCircular h x (insert a refs))"
  by (subst hasCircular.simps) simp

lemma hasCircular_leaf: "(\<And>a. v \<noteq> JRef a) \<Longrightarrow> \<not> hasCircular h v refs"
  by (subst hasCircular.simps) (cases v; auto)

text \<open>
  What the detector is meant to find: \<open>reaches h v b\<close> says that the object at \<open>b\<close> is
  \<open>v\<close> itself or lies inside \<open>v\<close>, and a value is \<open>cyclic\<close> when some object it reaches
  lies inside one of its own properties.
\<close>

inductive reaches :: "heap \<Rightarrow> jsval \<Rightarrow> addr \<Rightarrow> bool" for h where
  here: "reaches h (JRef a) a"
| inside: "x \<in> set (children h a) \<Longrightarrow> reaches h x b \<Longrightarrow> reaches h (JRef a) b"

definition cyclic :: "heap \<Rightarrow> jsval \<Rightarrow> bool" where
  "cyclic h v \<longleftrightarrow> (\<exists>b x. reaches h v b \<and> x \<in> set (children h b) \<and> reaches h x b)"

lemma hasCircular_False:
  "\<not> hasCircular h v refs \<Longrightarrow>
     (\<forall>b. reaches h v b \<longrightarrow> b \<notin> refs \<and> (\<forall>x\<in>set (children h b). \<not> reaches h x b))"
proof (induction h v refs rule: hasCircular.induct)
  case (1 h v refs)
  show ?case
  proof (intro allI impI)
    fix b assume "reaches h v b"
    then show "b \<notin> refs \<and> (\<forall>x\<in>set (children h b). \<not> reaches h x b)"
    proof cases
      case (here)
      with "1.prems" have a: "b \<notin> refs" "\<forall>x\<in>set (children h b). \<not> hasCircular h x (insert b refs)"
        by (auto simp: hasCircular_JRef)
      have "\<not> reaches h x b" if "x \<in> set (children h b)" for x
        using "1.IH" [OF here a(1) that] a(2) that by auto
      with a show ?thesis by simp
    next
      case (inside x a)
      with "1.prems" have a: "a \<notin> refs" "\<not> hasCircular h x (insert a refs)"
        by (auto simp: hasCircular_JRef)
      from "1.IH" [OF inside(1) a(1) inside(2) a(2)] inside(3) show ?thesis by auto
    qed
  qed
qed

lemma hasCircular_True:
  "hasCircular h v refs \<Longrightarrow>
     (\<exists>b. reaches h v b \<and> (b \<in> refs \<or> (\<exists>x\<in>set (children h b). reaches h x b)))"
proof (induction h v refs rule: hasCircular.induct)
  case (1 h v refs)
  from "1.prems" obtain a where v: "v = JRef a"
    using hasCircular_leaf [of v h refs] by blast
  show ?case
  proof (cases "a \<in> refs")
    case True
    with v show ?thesis by (auto intro: reaches.here)
  next
    case False
    with "1.prems" v obtain x where x: "x \<in> set (children h a)" "hasCircular h x (insert a refs)"
      by (auto simp: hasCircular_JRef)
    from "1.IH" [OF v False x] obtain b where
      b: "reaches h x b" "b \<in> insert a refs \<or> (\<exists>y\<in>set (children h b). reaches h y b)"
      by blast
    show ?thesis
    proof (cases "b = a")
      case True
      with b x v show ?thesis by (auto intro: reaches.here)
    next
      case False
      with b x v show ?thesis by (auto intro: reaches.inside)
    qed
  qed
qed

lemma hasCircular_cyclic: "hasCircular h v {} \<longleftrightarrow> cyclic h v"
  using hasCircular_True [of h v "{}"] hasCircular_False [of h v "{}"]
  by (auto simp: cyclic_def)


definition reach :: "heap \<Rightarrow> jsval list \<Rightarrow> addr set" where
  "reach h vs = {b. \<exists>v\<in>set vs. reaches h v b}"

lemma reaches_cases_val:
  "reaches h v b \<Longrightarrow> v = JRef b \<or> (\<exists>a. b \<in> reach h (children h a) \<and> v = JRef a)"
  by (induction rule: reaches.induct) (auto simp: reach_def intro: reaches.intros)

lemma reaches_heap:
  "reaches h v b \<Longrightarrow> v = JRef b \<or> (\<exists>a<length h. JRef b \<in> set (children h a))"
proof (induction rule: reaches.induct)
  case (here a)
  show ?case by simp
next
  case (inside x a b)
  from inside(1) have "a < length h"
    by (auto simp: children_def lookup_def split: if_splits)
  with inside show ?case by auto
qed

lemma finite_refs: "finite {b. JRef b \<in> set xs}"
proof -
  have "{b. JRef b \<in> set xs} \<subseteq> (\<lambda>v. case v of JRef b \<Rightarrow> b | _ \<Rightarrow> 0) ` set xs"
    by (auto simp: image_iff split: jsval.splits intro!: bexI)
  then show ?thesis by (rule finite_subset) simp
qed

lemma finite_reach: "finite (reach h vs)"
proof -
  have "reach h vs \<subseteq> {b. JRef b \<in> set vs} \<union> (\<Union>a<length h. {b. JRef b \<in> set (children h a)})"
    by (auto simp: reach_def dest!: reaches_heap)
  moreover have "finite ({b. JRef b \<in> set vs} \<union> (\<Union>a<length h. {b. JRef b \<in> set (children h a)}))"
    by (simp add: finite_refs)
  ultimately show ?thesis by (rule finite_subset)
qed

lemma reach_children:
  assumes "\<not> hasCircular h (JRef a) {}"
  shows "card (reach h (children h a)) < card (reach h [JRef a])"
proof -
  have "a \<notin> reach h (children h a)"
    using hasCircular_False [OF assms] by (auto simp: reach_def intro: reaches.here)
  moreover have "a \<in> reach h [JRef a]" by (simp add: reach_def reaches.here)
  moreover have "reach h (children h a) \<subseteq> reach h [JRef a]"
    by (auto simp: reach_def intro: reaches.inside)
  ultimately have "reach h (children h a) \<subset> reach h [JRef a]" by auto
  then show ?thesis by (rule psubset_card_mono [OF finite_reach])
qed

lemma reach_mono: "set vs \<subseteq> set ws \<Longrightarrow> card (reach h vs) \<le> card (reach h ws)"
  by (rule card_mono [OF finite_reach]) (auto simp: reach_def)

text \<open>
  \<open>generator\<close> and \<open>multiGenerator\<close>, each given by the trace of its iterator: the chunks a
  consumer receives and the error, if any, in which the iteration ends. \<open>flatted\<close> is the
  array of keys and values that the object branch hands to \<open>multiGenerator\<close>, and
  \<open>as_source\<close> turns the trace of an inner iterator into the source of the
  \<open>StreamIterator\<close> around it. \<open>generator\<close> throws \<open>Invalid data\<close> or the \<open>TypeError\<close>
  when it is called, and \<open>Circular reference!\<close> when the iterator is created; in each
  case no chunk has been emitted.
\<close>

definition flatted :: "(jsstring \<times> jsval) list \<Rightarrow> jsval list" where
  "flatted kvs = concat (map (\<lambda>(key, v). [JString key, v]) kvs)"

lemma reach_flatted: "reach h (flatted kvs) = reach h (map snd kvs)"
proof -
  have "\<not> reaches h (JString k) b" for k b by (auto elim: reaches.cases)
  then show ?thesis by (auto simp: reach_def flatted_def) force+
qed

definition as_source :: "trace \<Rightarrow> source" where
  "as_source t = (map Piece (fst t), snd t)"

function generator :: "heap \<Rightarrow> jsval \<Rightarrow> trace"
  and multiGenerator :: "heap \<Rightarrow> jsval list \<Rightarrow> trace" where
  "generator h value =
     (case value of
        JNull \<Rightarrow> CommonIterator_collect (new_CommonIterator NULL ([], None))
      | JUndefined \<Rightarrow> CommonIterator_collect (new_CommonIterator UNDEFINED ([], None))
      | JBoolean b \<Rightarrow>
          CommonIterator_collect
            (new_CommonIterator BOOLEAN ([Piece [if b then 1 else 0]], None))
      | JBooleanObject b \<Rightarrow>
          CommonIterator_collect
            (new_CommonIterator BOOLEAN ([Piece [if b then 1 else 0]], None))
      | JNumber n \<Rightarrow>
          CommonIterator_collect (new_CommonIterator NUMBER ([Piece (setFloat64 n)], None))
      | JNumberObject n \<Rightarrow>
          CommonIterator_collect (new_CommonIterator NUMBER ([Piece (setFloat64 n)], None))
      | JString s \<Rightarrow>
          StreamIterator_collect
            (new_StreamIterator STRING ([Piece (TextEncoder_encode s)], None))
      | JStringObject s \<Rightarrow>
          StreamIterator_collect
            (new_StreamIterator STRING ([Piece (TextEncoder_encode s)], None))
      | JUint8Array v \<Rightarrow>
          StreamIterator_collect (new_StreamIterator STREAM ([Piece v], None))
      | JAsyncIterable items \<Rightarrow>
          StreamIterator_collect (new_StreamIterator STREAM (items, None))
      | JRef a \<Rightarrow>
          (case lookup h a of
             Some (JArray xs) \<Rightarrow>
               if hasCircular h value {} then ([], Some CircularReference)
               else StreamIterator_collect
                      (new_StreamIterator ARRAY (as_source (multiGenerator h xs)))
           | Some (JObject kvs) \<Rightarrow>
               if hasCircular h value {} then ([], Some CircularReference)
               else StreamIterator_collect
                      (new_StreamIterator OBJECT (as_source (multiGenerator h (flatted kvs))))
           | None \<Rightarrow> ([], Some InvalidData))
      | JOther \<Rightarrow> ([], Some InvalidData)
      | JBigInt \<Rightarrow> ([], Some TypeError)
      | JSymbol \<Rightarrow> ([], Some TypeError))"
| "multiGenerator h [] = ([], None)"
| "multiGenerator h (v # vs) =
     (case generator h v of
        (out, Some e) \<Rightarrow> (out, Some e)
      | (out, None) \<Rightarrow> (case multiGenerator h vs of (out', e) \<Rightarrow> (out @ out', e)))"
  by pat_completeness auto
termination
proof (relation "measures
    [\<lambda>x. case x of Inl (h, v) \<Rightarrow> card (reach h [v]) | Inr (h, vs) \<Rightarrow> card (reach h vs),
     \<lambda>x. case x of Inl _ \<Rightarrow> 0 | Inr (h, vs) \<Rightarrow> Suc (length vs)]", goal_cases)
  case 1
  show ?case by simp
next
  case (2 h v a ob xs)
  then have "children h a = xs" by (simp add: children_def)
  with reach_children [of h a] 2 show ?case by simp
next
  case (3 h v a ob kvs)
  then have "children h a = map snd kvs" by (simp add: children_def)
  with reach_children [of h a] 3 show ?case by (simp add: reach_flatted)
next
  case (4 h v vs)
  have "card (reach h [v]) \<le> card (reach h (v # vs))" by (rule reach_mono) simp
  then show ?case by auto
next
  case (5 h v vs)
  have "card (reach h vs) \<le> card (reach h (v # vs))" by (rule reach_mono) auto
  then show ?case by auto
qed


section \<open>The byte reader\<close>

text \<open>
  Modelled from the spec: the reader \<open>Splitable\<close> belongs to the library
  \<open>async-iterable-split\<close>, which is not among the sources. Section 6 of the specification
  gives its contract: ``read exactly N bytes, suspending until available, fail if source
  ends first'', ``expose remaining chunked-stream content as a further byte source'' and
  ``report whether any bytes remain''; section 4.1 gives the wire contract: ``decode by
  reading chunks until the zero-length terminator'', and a source that ends before the
  declared bytes are there is a fatal error. The input is the whole byte string still to
  be read. \<open>readEnoughSize\<close> returns the next \<open>n\<close> bytes and the rest.
  \<open>splitChunkedStream\<close> returns the data of the chunks up to the terminator and what
  follows the terminator, or \<open>None\<close> in its place when the input ends before the
  terminator. \<open>readChunkedStream\<close> is the same with a bound on the size of the data.
\<close>

definition readEnoughSize :: "nat \<Rightarrow> Uint8Array \<Rightarrow> error + (Uint8Array \<times> Uint8Array)" where
  "readEnoughSize n bs =
     (if length bs < n then Inl NotEnoughData else Inr (take n bs, drop n bs))"

function splitChunkedStream :: "Uint8Array \<Rightarrow> Uint8Array \<times> Uint8Array option" where
  "splitChunkedStream bs =
     (if length bs < 4 then ([], None)
      else
        (let n = getUint32 bs; rest = drop 4 bs in
         if n = 0 then ([], Some rest)
         else if length rest < n then (rest, None)
         else (case splitChunkedStream (drop n rest) of
                 (data, beyond) \<Rightarrow> (take n rest @ data, beyond))))"
  by pat_completeness auto
termination
  by (relation "measure length") auto

declare splitChunkedStream.simps [simp del]

definition readChunkedStream :: "enat \<Rightarrow> Uint8Array \<Rightarrow> error + (Uint8Array \<times> Uint8Array)" where
  "readChunkedStream maxSize bs =
     (case splitChunkedStream bs of
        (data, beyond) \<Rightarrow>
          if enat (length data) > maxSize then Inl SizeExceeded
          else (case beyond of None \<Rightarrow> Inl NotEnoughData | Some rest \<Rightarrow> Inr (data, rest)))"

section \<open>The decoder\<close>

text \<open>
  The options of \<open>parser\<close>; each is \<open>Infinity\<close> unless the caller sets it.
\<close>

record options =
  streamMaxSize :: enat
  stringMaxSize :: enat
  arrayMaxLength :: enat
  objectMaxLength :: enat
  maxDepth :: enat

definition default_options :: options where
  "default_options =
     \<lparr>streamMaxSize = \<infinity>, stringMaxSize = \<infinity>, arrayMaxLength = \<infinity>,
      objectMaxLength = \<infinity>, maxDepth = \<infinity>\<rparr>"

text \<open>
  What \<open>parser\<close> returns: \<open>null\<close>, \<open>undefined\<close>, a boolean, a number (its 64 bits), the
  bytes of a stream, a string, an array, or an object, given by its own properties in the
  order in which they were created. A path is the list of indices and keys that leads to
  the value being read.
\<close>

datatype pathseg = Index nat | Key jsstring

datatype "value" =
    VNull
  | VUndefined
  | VBoolean bool
  | VNumber "64 word"
  | VStream Uint8Array
  | VString jsstring
  | VArray "value list"
  | VObject "(jsstring \<times> value) list"

text \<open>
  \<open>result[key] = value\<close> on the object that \<open>let result = {}\<close> creates: the object under
  construction is given by its own properties, in the order in which they were created,
  and by its prototype, which is \<open>Object.prototype\<close> at first.

  An assignment creates the own property, or overwrites its value where it stands. The
  one exception is the key \<open>__proto__\<close> as long as the object has no own property of that
  name and inherits the accessor \<open>__proto__\<close> of \<open>Object.prototype\<close>: then the assignment
  calls the setter of the accessor, which creates no property. The setter ignores a
  boolean, a number, a string and \<open>undefined\<close>; given \<open>null\<close> or an object (an array, a
  byte array or an object) it makes that the prototype of \<open>result\<close>. Once the prototype
  is \<open>null\<close> nothing is inherited, and an assignment to \<open>__proto__\<close> stores an own
  property like any other. When the prototype is a decoded object with an own property
  \<open>__proto__\<close>, the assignment finds that property first and stores an own property as
  well; any other decoded value that has become the prototype is taken to pass on the
  accessor of \<open>Object.prototype\<close>, as a decoded array, byte array or object does unless
  its own prototype was replaced while it was decoded.

  The prototype is kept while the object is read. It is not part of the decoded value,
  which records the own properties only.
\<close>

definition proto_key :: jsstring where
  "proto_key = [95, 95, 112, 114, 111, 116, 111, 95, 95]"

datatype prototype = ObjectPrototype | NullPrototype | ValuePrototype "value"

type_synonym jsobject = "(jsstring \<times> value) list \<times> prototype"

definition new_object :: jsobject where
  "new_object = ([], ObjectPrototype)"

fun put_property :: "jsstring \<Rightarrow> value \<Rightarrow> (jsstring \<times> value) list \<Rightarrow> (jsstring \<times> value) list" where
  "put_property key v [] = [(key, v)]"
| "put_property key v ((k, w) # ps) =
     (if k = key then (key, v) # ps else (k, w) # put_property key v ps)"

fun is_object :: "value \<Rightarrow> bool" where
  "is_object (VArray xs) = True"
| "is_object (VObject ps) = True"
| "is_object (VStream bs) = True"
| "is_object VNull = False"
| "is_object VUndefined = False"
| "is_object (VBoolean b) = False"
| "is_object (VNumber n) = False"
| "is_object (VString s) = False"

fun inherits_setter :: "prototype \<Rightarrow> bool" where
  "inherits_setter ObjectPrototype = True"
| "inherits_setter NullPrototype = False"
| "inherits_setter (ValuePrototype (VObject ps)) = (proto_key \<notin> fst ` set ps)"
| "inherits_setter (ValuePrototype v) = True"

definition set_property :: "jsstring \<Rightarrow> value \<Rightarrow> jsobject \<Rightarrow> jsobject" where
  "set_property key v result =
     (case result of (props, proto) \<Rightarrow>
        if key = proto_key \<and> key \<notin> fst ` set props \<and> inherits_setter proto then
          (if v = VNull then (props, NullPrototype)
           else if is_object v then (props, ValuePrototype v)
           else (props, proto))
        else (put_property key v props, proto))"

text \<open>The branches of \<open>parser\<close> that read one value without recursion.\<close>

definition parse_boolean :: "Uint8Array \<Rightarrow> error + (value \<times> Uint8Array)" where
  "parse_boolean bs1 =
     (case readEnoughSize 1 bs1 of
        Inl e \<Rightarrow> Inl e
      | Inr (data, bs2) \<Rightarrow>
          if hd data = 0 then Inr (VBoolean False, bs2)
          else if hd data = 1 then Inr (VBoolean True, bs2)
          else Inl InvalidData)"

definition parse_number :: "Uint8Array \<Rightarrow> error + (value \<times> Uint8Array)" where
  "parse_number bs1 =
     (case readEnoughSize 8 bs1 of
        Inl e \<Rightarrow> Inl e
      | Inr (data, bs2) \<Rightarrow> Inr (VNumber (getFloat64 data), bs2))"

definition parse_stream :: "options \<Rightarrow> Uint8Array \<Rightarrow> error + (value \<times> Uint8Array)" where
  "parse_stream opts bs1 =
     (case readChunkedStream (streamMaxSize opts) bs1 of
        Inl e \<Rightarrow> Inl e
      | Inr (data, bs2) \<Rightarrow> Inr (VStream data, bs2))"

definition parse_string :: "options \<Rightarrow> Uint8Array \<Rightarrow> error + (value \<times> Uint8Array)" where
  "parse_string opts bs1 =
     (case splitChunkedStream bs1 of
        (data, beyond) \<Rightarrow>
          if enat (length data) > stringMaxSize opts then Inl StringSizeExceeded
          else (case beyond of
                  None \<Rightarrow> Inl NotEnoughData
                | Some bs2 \<Rightarrow> Inr (VString (TextDecoder_decode True data), bs2)))"

text \<open>
  \<open>parser\<close>, with the loops of its ARRAY and OBJECT branches as \<open>parse_array\<close> and
  \<open>parse_object\<close>. It returns the value and the bytes that follow it. \<open>sub\<close> is the
  payload still to be read and \<open>beyond\<close> what follows the payload's terminator. The
  counter \<open>length\<close> of the OBJECT branch is \<open>len\<close>: the source never increments it, so
  it is passed on unchanged.
\<close>

function parser :: "options \<Rightarrow> pathseg list \<Rightarrow> Uint8Array \<Rightarrow> error + (value \<times> Uint8Array)"
  and parse_array ::
    "options \<Rightarrow> pathseg list \<Rightarrow> value list \<Rightarrow> Uint8Array \<Rightarrow> Uint8Array option
      \<Rightarrow> error + (value \<times> Uint8Array)"
  and parse_object ::
    "options \<Rightarrow> pathseg list \<Rightarrow> jsobject \<Rightarrow> nat \<Rightarrow> Uint8Array
      \<Rightarrow> Uint8Array option \<Rightarrow> error + (value \<times> Uint8Array)" where
  "parser opts paths bs =
     (if enat (length paths) > maxDepth opts then Inl DepthExceeded
      else case readEnoughSize 1 bs of
        Inl e \<Rightarrow> Inl e
      | Inr (t, bs1) \<Rightarrow>
         (let type = hd t in
          if type = TYPES_code NULL then Inr (VNull, bs1)
          else if type = TYPES_code UNDEFINED then Inr (VUndefined, bs1)
          else if type = TYPES_code BOOLEAN then parse_boolean bs1
          else if type = TYPES_code NUMBER then parse_number bs1
          else if type = TYPES_code STREAM then parse_stream opts bs1
          else if type = TYPES_code STRING then parse_string opts bs1
          else if type = TYPES_code ARRAY then
            (case splitChunkedStream bs1 of
               (sub, beyond) \<Rightarrow> parse_array opts paths [] sub beyond)
          else if type = TYPES_code OBJECT then
            (case splitChunkedStream bs1 of
               (sub, beyond) \<Rightarrow> parse_object opts paths new_object 0 sub beyond)
          else Inl InvalidType))"
| "parse_array opts paths result sub beyond =
     (if sub = [] then
        (case beyond of None \<Rightarrow> Inl NotEnoughData | Some rest \<Rightarrow> Inr (VArray result, rest))
      else if enat (length result) \<ge> arrayMaxLength opts then Inl ArrayLengthExceeded
      else case parser opts (paths @ [Index (length result)]) sub of
        Inl e \<Rightarrow> Inl e
      | Inr (element, sub') \<Rightarrow> parse_array opts paths (result @ [element]) sub' beyond)"
| "parse_object opts paths result len sub beyond =
     (if sub = [] then
        (case beyond of
           None \<Rightarrow> Inl NotEnoughData
         | Some rest \<Rightarrow> Inr (VObject (fst result), rest))
      else if enat len \<ge> objectMaxLength opts then Inl ObjectLengthExceeded
      else case readEnoughSize 1 sub of
        Inl e \<Rightarrow> Inl e
      | Inr (t, sub1) \<Rightarrow>
         if hd t \<noteq> TYPES_code STRING then Inl InvalidKey
         else case readChunkedStream (stringMaxSize opts) sub1 of
           Inl e \<Rightarrow> Inl e
         | Inr (kb, sub2) \<Rightarrow>
            (let key = TextDecoder_decode False kb in
             case parser opts (paths @ [Key key]) sub2 of
               Inl e \<Rightarrow> Inl e
             | Inr (v, sub3) \<Rightarrow>
                 parse_object opts paths (set_property key v result) len sub3 beyond))"
  by pat_completeness auto

lemma splitChunkedStream_length:
  "splitChunkedStream bs = (data, beyond) \<Longrightarrow>
     length data \<le> length bs - 4
     \<and> (\<forall>rest. beyond = Some rest \<longrightarrow> length data + length rest + 4 \<le> length bs)"
proof (induction bs arbitrary: data beyond rule: splitChunkedStream.induct)
  case (1 bs)
  show ?case
  proof (cases "length bs < 4 \<or> getUint32 bs = 0 \<or> length (drop 4 bs) < getUint32 bs")
    case True
    with "1.prems" show ?thesis
      by (auto simp: splitChunkedStream.simps [of bs] Let_def split: if_splits)
  next
    case False
    obtain d b where r: "splitChunkedStream (drop (getUint32 bs) (drop 4 bs)) = (d, b)"
      by (cases "splitChunkedStream (drop (getUint32 bs) (drop 4 bs))")
    from False "1.IH" [OF _ refl refl _ _ r]
    have "length d \<le> length (drop (getUint32 bs) (drop 4 bs)) - 4"
      "\<forall>rest. b = Some rest \<longrightarrow>
         length d + length rest + 4 \<le> length (drop (getUint32 bs) (drop 4 bs))"
      by auto
    with False r "1.prems" show ?thesis
      by (auto simp: splitChunkedStream.simps [of bs] Let_def)
  qed
qed

lemma readChunkedStream_length:
  "readChunkedStream m bs = Inr (data, rest) \<Longrightarrow> length data + length rest + 4 \<le> length bs"
  using splitChunkedStream_length [of bs]
  by (auto simp: readChunkedStream_def split: prod.splits if_splits option.splits)

lemma readEnoughSize_length:
  "readEnoughSize n bs = Inr (data, rest) \<Longrightarrow> length data = n \<and> length rest + n = length bs"
  by (auto simp: readEnoughSize_def split: if_splits)


lemma parse_leaf_length:
  "parse_boolean bs = Inr (v, rest) \<Longrightarrow> length rest < length bs"
  "parse_number bs = Inr (v, rest) \<Longrightarrow> length rest < length bs"
  "parse_stream opts bs = Inr (v, rest) \<Longrightarrow> length rest < length bs"
  "parse_string opts bs = Inr (v, rest) \<Longrightarrow> length rest < length bs"
  using splitChunkedStream_length [of bs]
  by (auto simp: parse_boolean_def parse_number_def parse_stream_def parse_string_def
        split: sum.splits prod.splits if_splits option.splits
        dest!: readEnoughSize_length readChunkedStream_length)

lemma parser_shrinks:
  "parser_parse_array_parse_object_dom (Inl (opts, paths, bs)) \<Longrightarrow>
     parser opts paths bs = Inr (v, rest) \<Longrightarrow> length rest < length bs"
  "parser_parse_array_parse_object_dom (Inr (Inl (opts, paths, result, sub, beyond))) \<Longrightarrow>
     parse_array opts paths result sub beyond = Inr (v, rest) \<Longrightarrow> beyond = Some rest"
  "parser_parse_array_parse_object_dom (Inr (Inr (opts, paths, result', len, sub, beyond))) \<Longrightarrow>
     parse_object opts paths result' len sub beyond = Inr (v, rest) \<Longrightarrow> beyond = Some rest"
proof (induction opts paths bs and opts paths result sub beyond and opts paths result' len sub beyond
    arbitrary: v rest and v rest and v rest
    rule: parser_parse_array_parse_object.pinduct)
  case (1 opts paths bs)
  from "1.prems" obtain t bs1 where r: "readEnoughSize 1 bs = Inr (t, bs1)"
    and d: "\<not> enat (length paths) > maxDepth opts"
    by (cases "readEnoughSize 1 bs") (auto simp: parser.psimps [OF "1.hyps"] split: if_splits)
  from readEnoughSize_length [OF r] have l: "length bs = Suc (length bs1)" by simp
  obtain sub beyond where s: "splitChunkedStream bs1 = (sub, beyond)"
    by (cases "splitChunkedStream bs1")
  note IH = "1.IH"(1) [OF d r refl refl _ _ _ _ _ _ _ s [symmetric]]
    "1.IH"(2) [OF d r refl refl _ _ _ _ _ _ _ _ s [symmetric]]
  from "1.prems" r d s l IH splitChunkedStream_length [OF s] show ?case
    by (auto simp: parser.psimps [OF "1.hyps"] Let_def split: if_splits
          dest: parse_leaf_length)
next
  case (2 opts paths result sub beyond)
  then show ?case
    by (auto simp: parse_array.psimps split: if_splits option.splits sum.splits)
next
  case (3 opts paths result len sub beyond)
  then show ?case
    by (auto simp: parse_object.psimps Let_def split: if_splits option.splits sum.splits)
qed


termination parser
proof (relation "measure (\<lambda>x. case x of
      Inl (opts, paths, bs) \<Rightarrow> 2 * length bs
    | Inr (Inl (opts, paths, result, sub, beyond)) \<Rightarrow> 2 * length sub + 1
    | Inr (Inr (opts, paths, result, len, sub, beyond)) \<Rightarrow> 2 * length sub + 1)", goal_cases)
  case 1
  show ?case by simp
next
  case (2 opts paths bs r t bs1 type sub beyond)
  then have s: "splitChunkedStream bs1 = (sub, beyond)" "readEnoughSize 1 bs = Inr (t, bs1)"
    by simp_all
  with splitChunkedStream_length [OF s(1)] readEnoughSize_length [OF s(2)] show ?case
    by auto
next
  case (3 opts paths bs r t bs1 type sub beyond)
  then have s: "splitChunkedStream bs1 = (sub, beyond)" "readEnoughSize 1 bs = Inr (t, bs1)"
    by simp_all
  with splitChunkedStream_length [OF s(1)] readEnoughSize_length [OF s(2)] show ?case
    by auto
next
  case 4
  then show ?case by simp
next
  case 5
  then show ?case by (auto dest: parser_shrinks(1))
next
  case (6 opts paths result len sub beyond r t sub1 r' kb sub2 key)
  then show ?case
    using readEnoughSize_length [of 1 sub t sub1] readChunkedStream_length [of "stringMaxSize opts" sub1 kb sub2]
    by auto
next
  case (7 opts paths result len sub beyond r t sub1 r' kb sub2 key r'' v sub3)
  then show ?case
    using readEnoughSize_length [of 1 sub t sub1] readChunkedStream_length [of "stringMaxSize opts" sub1 kb sub2]
      parser_shrinks(1) [of opts "paths @ [Key key]" sub2 v sub3]
    by auto
qed


declare parser.simps [simp del] parse_array.simps [simp del] parse_object.simps [simp del]

section \<open>The cycle detector\<close>

lemma generator_JRef:
  "generator h (JRef a) =
     (case lookup h a of
        Some (JArray xs) \<Rightarrow>
          if hasCircular h (JRef a) {} then ([], Some CircularReference)
          else StreamIterator_collect
                 (new_StreamIterator ARRAY (as_source (multiGenerator h xs)))
      | Some (JObject kvs) \<Rightarrow>
          if hasCircular h (JRef a) {} then ([], Some CircularReference)
          else StreamIterator_collect
                 (new_StreamIterator OBJECT (as_source (multiGenerator h (flatted kvs))))
      | None \<Rightarrow> ([], Some InvalidData))"
  by simp

lemma cyclic_is_object: "cyclic h v \<Longrightarrow> \<exists>a ob. v = JRef a \<and> lookup h a = Some ob"
proof -
  assume "cyclic h v"
  then obtain b x where b: "reaches h v b" "x \<in> set (children h b)" "reaches h x b"
    by (auto simp: cyclic_def)
  have ch: "\<exists>ob. lookup h a = Some ob" if "y \<in> set (children h a)" for y a
    using that by (cases "lookup h a") (auto simp: children_def)
  from b(1) show ?thesis
  proof cases
    case here
    with b(2) ch show ?thesis by auto
  next
    case (inside y a)
    with ch show ?thesis by auto
  qed
qed

text \<open>
  Claim C6. A value that contains a reference cycle (some object reachable from it has
  itself among the values reachable from its own properties) is rejected with
  \<open>CircularReference\<close> when its encoding is first iterated, and nothing has been emitted
  then, not even the type tag: the trace is empty. On a value without such a cycle the
  traversal \<open>hasCircular\<close> returns false.
\<close>

theorem circular_reference_rejected:
  "(cyclic h v \<longrightarrow> generator h v = ([], Some CircularReference))
   \<and> (\<not> cyclic h v \<longrightarrow> \<not> hasCircular h v {})"
proof (intro conjI impI)
  assume c: "cyclic h v"
  then obtain a ob where v: "v = JRef a" "lookup h a = Some ob"
    using cyclic_is_object by blast
  with c show "generator h v = ([], Some CircularReference)"
    by (cases ob) (simp_all add: generator_JRef hasCircular_cyclic del: generator.simps)
next
  assume "\<not> cyclic h v"
  then show "\<not> hasCircular h v {}" by (simp add: hasCircular_cyclic)
qed

theorem circular_reference_rejected_witness:
  "cyclic [JObject [([97], JRef 0)]] (JRef 0)
   \<and> generator [JObject [([97], JRef 0)]] (JRef 0) = ([], Some CircularReference)
   \<and> \<not> cyclic [JArray [JRef 1, JRef 1], JArray []] (JRef 0)
   \<and> \<not> hasCircular [JArray [JRef 1, JRef 1], JArray []] (JRef 0) {}"
proof -
  let ?h = "[JObject [([97], JRef 0)]]"
  let ?g = "[JArray [JRef 1, JRef 1], JArray []]"
  have "JRef 0 \<in> set (children ?h 0)" by (simp add: children_def lookup_def)
  then have c: "cyclic ?h (JRef 0)"
    unfolding cyclic_def by (blast intro: reaches.here)
  have n: "\<not> hasCircular ?g (JRef 0) {}"
    by (simp add: hasCircular_JRef children_def lookup_def)
  then have "\<not> cyclic ?g (JRef 0)" by (simp add: hasCircular_cyclic)
  with c circular_reference_rejected [of ?h "JRef 0"] circular_reference_rejected [of ?g "JRef 0"]
  show ?thesis by simp
qed


section \<open>The chunked payload on the wire\<close>

text \<open>
  The chunks a byte string consists of, each read as section 3 of the specification
  defines a chunk (four bytes of big-endian length, then that many bytes), up to the end
  of the string and not only up to the first chunk of length 0; \<open>None\<close> when the
  string is not a sequence of whole chunks.
\<close>

function wire_chunks :: "Uint8Array \<Rightarrow> Uint8Array list option" where
  "wire_chunks bs =
     (if bs = [] then Some []
      else if length bs < 4 then None
      else
        (let n = getUint32 bs; rest = drop 4 bs in
         if length rest < n then None
         else map_option ((#) (take n rest)) (wire_chunks (drop n rest))))"
  by pat_completeness auto
termination
  by (relation "measure length") auto

declare wire_chunks.simps [simp del]

lemma length_frame [simp]: "length (frame c) = 4 + length c"
  by (simp add: frame_def)

lemma getUint32_frame:
  "length c \<le> 4294967295 \<Longrightarrow> getUint32 (frame c @ bs) = length c"
  by (simp add: frame_def getUint32_setUint32)

lemma drop_frame [simp]: "drop 4 (frame c) = c"
  by (simp add: frame_def)

lemma frame_not_Nil [simp]: "frame c \<noteq> []"
  using length_frame [of c] by (cases "frame c") simp_all

lemma wire_chunks_frame:
  "length c \<le> 4294967295 \<Longrightarrow>
   wire_chunks (frame c @ bs) = map_option ((#) c) (wire_chunks bs)"
  by (subst wire_chunks.simps) (simp add: getUint32_frame Let_def)

lemma wire_chunks_frames:
  "\<forall>c\<in>set cs. length c \<le> 4294967295 \<Longrightarrow>
   wire_chunks (concat (map frame cs) @ bs) = map_option ((@) cs) (wire_chunks bs)"
  by (induction cs; cases "wire_chunks bs") (simp_all add: wire_chunks_frame)

lemma splitChunkedStream_frame:
  "c \<noteq> [] \<Longrightarrow> length c \<le> 4294967295 \<Longrightarrow>
   splitChunkedStream (frame c @ bs) =
     (case splitChunkedStream bs of (data, beyond) \<Rightarrow> (c @ data, beyond))"
  by (subst splitChunkedStream.simps) (simp add: getUint32_frame Let_def)

lemma splitChunkedStream_end: "splitChunkedStream (frame [] @ bs) = ([], Some bs)"
  by (subst splitChunkedStream.simps) (simp add: getUint32_frame Let_def)

lemma splitChunkedStream_frames:
  "\<forall>c\<in>set cs. c \<noteq> [] \<and> length c \<le> 4294967295 \<Longrightarrow>
   splitChunkedStream (concat (map frame cs) @ bs) =
     (case splitChunkedStream bs of (data, beyond) \<Rightarrow> (concat cs @ data, beyond))"
  by (induction cs) (simp_all add: splitChunkedStream_frame split: prod.splits)

text \<open>The bytes of a completed chunked payload, read back.\<close>

lemma final_frame_eq:
  "final_frame c = (if c = [] then frame [] else frame c @ frame [])"
  by (simp add: final_frame_def frame_Nil)

lemma splitChunkedStream_chunked:
  assumes "\<forall>c\<in>set cs. 65536 \<le> length c \<and> length c \<le> 4294967295" "length c < 65536"
  shows "splitChunkedStream (concat (map frame cs @ [final_frame c]) @ bs) =
    (concat cs @ c, Some bs)"
proof -
  from assms(1) have "\<forall>c\<in>set cs. c \<noteq> [] \<and> length c \<le> 4294967295" by auto
  from splitChunkedStream_frames [OF this] assms(2) show ?thesis
    by (simp add: final_frame_eq splitChunkedStream_end splitChunkedStream_frame)
qed

lemma wire_chunks_chunked:
  assumes "\<forall>c\<in>set cs. 65536 \<le> length c \<and> length c \<le> 4294967295" "length c < 65536"
  shows "wire_chunks (concat (map frame cs @ [final_frame c])) =
    Some (cs @ (if c = [] then [] else [c]) @ [[]])"
proof -
  from assms(1) have "\<forall>c\<in>set cs. length c \<le> 4294967295" by auto
  from wire_chunks_frames [OF this] assms(2) wire_chunks_frame [of "[]" "[]"]
  show ?thesis
    by (simp add: final_frame_eq wire_chunks_frame wire_chunks.simps [of "[]"])
qed


fun chunked_type :: "jsval \<Rightarrow> bool" where
  "chunked_type (JString s) = True"
| "chunked_type (JStringObject s) = True"
| "chunked_type (JUint8Array v) = True"
| "chunked_type (JAsyncIterable items) = True"
| "chunked_type (JRef a) = True"
| "chunked_type v = False"

lemma collect_complete:
  assumes "StreamIterator_collect (new_StreamIterator type src) = (out, None)"
  shows "\<exists>cs c. out = [TYPES_code type] # map frame cs @ [final_frame c]
    \<and> source_bytes src = concat cs @ c \<and> source_error src = None
    \<and> (\<forall>c\<in>set cs. 65536 \<le> length c \<and> length c \<le> 4294967295) \<and> length c < 65536"
proof -
  from new_StreamIterator_collect [of src type] obtain cs c where
    c: "source_bytes src = concat cs @ c"
    "\<forall>c\<in>set cs. 65536 \<le> length c \<and> length c \<le> 4294967295" "length c < 65536"
    "StreamIterator_collect (new_StreamIterator type src) =
       (case chunked cs c (source_error src) of (out, e) \<Rightarrow> ([TYPES_code type] # out, e))"
    by blast
  with assms show ?thesis
    by (cases "source_error src") (auto simp: chunked_def)
qed

lemma collect_small:
  assumes "length (source_bytes src) < 65536"
  shows "StreamIterator_collect (new_StreamIterator type src) =
    (case source_error src of
       None \<Rightarrow> ([[TYPES_code type], final_frame (source_bytes src)], None)
     | Some e \<Rightarrow> ([[TYPES_code type]], Some e))"
proof -
  from new_StreamIterator_collect [of src type] obtain cs c where
    c: "source_bytes src = concat cs @ c"
    "\<forall>c\<in>set cs. 65536 \<le> length c \<and> length c \<le> 4294967295" "length c < 65536"
    "StreamIterator_collect (new_StreamIterator type src) =
       (case chunked cs c (source_error src) of (out, e) \<Rightarrow> ([TYPES_code type] # out, e))"
    by blast
  have "cs = []"
  proof (cases cs)
    case (Cons d ds)
    with c(1) c(2) assms show ?thesis by simp
  qed simp
  with c show ?thesis by (simp add: chunked_def split: option.splits)
qed

lemma source_pieces [simp]:
  "source_bytes (map Piece ps, e) = concat ps" "source_error (map Piece ps, e) = e"
  by (induction ps) (auto simp: source_bytes_def source_error_def)

lemma source_piece [simp]:
  "source_bytes ([Piece p], e) = p" "source_error ([Piece p], e) = e"
  using source_pieces [of "[p]" e] by simp_all

lemma generator_chunked_type:
  assumes "chunked_type v" "generator h v = (out, None)"
  shows "\<exists>type src. generator h v = StreamIterator_collect (new_StreamIterator type src)"
proof (cases v)
  case (JRef a)
  show ?thesis
  proof (cases "lookup h a")
    case None
    with assms JRef show ?thesis by (simp add: generator_JRef del: generator.simps)
  next
    case (Some ob)
    show ?thesis
    proof (cases ob)
      case (JArray xs)
      with assms JRef Some have "generator h v = StreamIterator_collect
          (new_StreamIterator ARRAY (as_source (multiGenerator h xs)))"
        by (simp add: generator_JRef del: generator.simps split: if_splits)
      then show ?thesis by blast
    next
      case (JObject kvs)
      with assms JRef Some have "generator h v = StreamIterator_collect
          (new_StreamIterator OBJECT (as_source (multiGenerator h (flatted kvs))))"
        by (simp add: generator_JRef del: generator.simps split: if_splits)
      then show ?thesis by blast
    qed
  qed
next
  case (JString s)
  show ?thesis unfolding JString by simp (intro exI, rule refl)
next
  case (JStringObject s)
  show ?thesis unfolding JStringObject by simp (intro exI, rule refl)
next
  case (JUint8Array p)
  show ?thesis unfolding JUint8Array by simp (intro exI, rule refl)
next
  case (JAsyncIterable items)
  show ?thesis unfolding JAsyncIterable by simp (intro exI, rule refl)
qed (use assms(1) in simp_all)

text \<open>
  Claim C2. When the encoder completes a value of a chunked kind (a string, a byte source,
  an array or an object), what it has emitted is the tag followed by a sequence of chunks
  in which exactly one chunk has length 0, and that chunk is the last one.
\<close>

theorem chunk_termination:
  assumes "chunked_type v" and "generator h v = (out, None)"
  shows "\<exists>type chunks. out = [TYPES_code type] # tl out
    \<and> wire_chunks (concat (tl out)) = Some chunks
    \<and> count_list chunks [] = 1 \<and> last chunks = []"
proof -
  from generator_chunked_type [OF assms] assms(2) obtain type src where
    "StreamIterator_collect (new_StreamIterator type src) = (out, None)"
    by auto
  from collect_complete [OF this] obtain cs c where
    c: "out = [TYPES_code type] # map frame cs @ [final_frame c]"
    "\<forall>c\<in>set cs. 65536 \<le> length c \<and> length c \<le> 4294967295" "length c < 65536"
    by blast
  from c(2) have "count_list cs [] = 0" by (induction cs) auto
  with c wire_chunks_chunked [OF c(2) c(3)] show ?thesis
    by (intro exI [of _ type] exI [of _ "cs @ (if c = [] then [] else [c]) @ [[]]"]) simp
qed

lemma generator_JString:
  "generator h (JString s) =
     StreamIterator_collect (new_StreamIterator STRING ([Piece (TextEncoder_encode s)], None))"
  by simp

lemma abc: "TextEncoder_encode [97, 98, 99] = [97, 98, 99]"
  by (simp add: TextEncoder_encode_def utf8_bytes_def is_surrogate_def)

theorem chunk_termination_witness:
  "chunked_type (JString [97, 98, 99])
   \<and> generator [] (JString [97, 98, 99]) = ([[4], [0, 0, 0, 3, 97, 98, 99, 0, 0, 0, 0]], None)
   \<and> (\<exists>type chunks.
         [[4], [0, 0, 0, 3, 97, 98, 99, 0, 0, 0, 0]] =
           [TYPES_code type] # tl [[4], [0, 0, 0, 3, 97, 98, 99, 0, 0, 0, 0 :: byte]]
         \<and> wire_chunks (concat (tl [[4], [0, 0, 0, 3, 97, 98, 99, 0, 0, 0, 0]])) = Some chunks
         \<and> count_list chunks [] = 1 \<and> last chunks = [])"
proof -
  have g: "generator [] (JString [97, 98, 99]) = ([[4], [0, 0, 0, 3, 97, 98, 99, 0, 0, 0, 0]], None)"
    by (simp add: collect_small abc final_frame_def frame_def setUint32_bytes del: generator.simps add: generator_JString)
  from chunk_termination [OF _ g] g show ?thesis by simp
qed


lemma next_piece:
  assumes "staging it" "chunkSize it < 65536" "carried it = []"
    "s_source it = (Piece v # xs, e)"
  shows "StreamIterator_next it = StreamIterator_next (push_piece v (it\<lparr>s_source := (xs, e)\<rparr>))"
proof -
  from assms(3,4) have "take_item it = Inr (Some (Piece v), it\<lparr>s_source := (xs, e)\<rparr>)"
    by (auto simp: take_item_def carried_def split: option.splits list.splits)
  with next_take [OF assms(1)] assms(2) show ?thesis by simp
qed

text \<open>
  Claim C3. When a piece does not fit below 4294967295 staged bytes, \<open>next\<close> stages only
  the part that fits, returns a chunk whose length field is 4294967295 and keeps the
  rest of the piece in \<open>remain\<close>. Every chunk of a completed payload has at most
  4294967295 bytes, the data of the chunks is the data of the source, and a source of more
  than 4294967295 bytes gives at least two data chunks.
\<close>

theorem hard_cap_split:
  "(staging it \<and> chunkSize it < 65536 \<and> carried it = [] \<and> s_source it = (Piece v # xs, e)
      \<and> 4294967295 < chunkSize it + length v \<longrightarrow>
    StreamIterator_next it =
      Inr (Some (setUint32 4294967295 @ concat (chunkData it)
                   @ take (4294967295 - chunkSize it) v),
           it\<lparr>s_source := (xs, e), chunkData := [], chunkSize := 0,
              remain := Some (drop (4294967295 - chunkSize it) v)\<rparr>))
   \<and> (\<exists>out chunks.
        StreamIterator_collect (new_StreamIterator type (map Piece ps, None)) =
          ([TYPES_code type] # out, None)
        \<and> wire_chunks (concat out) = Some (chunks @ [[]])
        \<and> (\<forall>c\<in>set chunks. 0 < length c \<and> length c \<le> 4294967295)
        \<and> concat chunks = concat ps
        \<and> (4294967295 < length (concat ps) \<longrightarrow> 2 \<le> length chunks))"
proof (intro conjI impI)
  assume a: "staging it \<and> chunkSize it < 65536 \<and> carried it = []
    \<and> s_source it = (Piece v # xs, e) \<and> 4294967295 < chunkSize it + length v"
  let ?space = "4294967295 - chunkSize it"
  let ?it = "it\<lparr>s_source := (xs, e), chunkData := chunkData it @ [take ?space v],
     chunkSize := 4294967295, remain := Some (drop ?space v)\<rparr>"
  from a have "\<not> length v \<le> ?space" by linarith
  then have p: "push_piece v (it\<lparr>s_source := (xs, e)\<rparr>) = ?it"
    by (simp add: push_piece_def Let_def)
  from a have st: "staging ?it" by (auto simp: staging_def)
  from a have "length (concat (chunkData it) @ take ?space v) = 4294967295"
    by (auto simp: staging_def)
  then have "frame (concat (chunkData it) @ take ?space v) =
      setUint32 4294967295 @ concat (chunkData it) @ take ?space v"
    by (simp only: frame_def append_assoc)
  with next_flush [OF st] next_piece [of it v xs e] a p
  show "StreamIterator_next it =
      Inr (Some (setUint32 4294967295 @ concat (chunkData it) @ take ?space v),
           it\<lparr>s_source := (xs, e), chunkData := [], chunkSize := 0,
              remain := Some (drop ?space v)\<rparr>)"
    by simp
next
  obtain out where o: "StreamIterator_collect (new_StreamIterator type (map Piece ps, None)) =
      (out, None)"
    using new_StreamIterator_collect [of "(map Piece ps, None)" type]
    by (auto simp: chunked_def)
  from collect_complete [OF o] obtain cs c where
    c: "out = [TYPES_code type] # map frame cs @ [final_frame c]"
    "concat ps = concat cs @ c"
    "\<forall>c\<in>set cs. 65536 \<le> length c \<and> length c \<le> 4294967295" "length c < 65536"
    by auto
  let ?chunks = "cs @ (if c = [] then [] else [c])"
  have two: "2 \<le> length ?chunks" if big: "4294967295 < length (concat ps)"
  proof (cases cs)
    case Nil
    with c big show ?thesis by simp
  next
    case (Cons d ds)
    show ?thesis
    proof (cases "ds = [] \<and> c = []")
      case True
      with Cons c big show ?thesis by simp
    next
      case False
      with Cons show ?thesis by (cases ds) auto
    qed
  qed
  have all: "\<forall>c\<in>set ?chunks. 0 < length c \<and> length c \<le> 4294967295"
    using c(3,4) by auto
  have w: "wire_chunks (concat (map frame cs @ [final_frame c])) = Some (?chunks @ [[]])"
    using wire_chunks_chunked [OF c(3) c(4)] by simp
  have cc: "concat ?chunks = concat ps" using c(2) by simp
  from o c(1) have o': "StreamIterator_collect (new_StreamIterator type (map Piece ps, None)) =
      ([TYPES_code type] # (map frame cs @ [final_frame c]), None)"
    by simp
  from two have two': "4294967295 < length (concat ps) \<longrightarrow> 2 \<le> length ?chunks" by blast
  from o' w all cc two'
  show "\<exists>out chunks.
        StreamIterator_collect (new_StreamIterator type (map Piece ps, None)) =
          ([TYPES_code type] # out, None)
        \<and> wire_chunks (concat out) = Some (chunks @ [[]])
        \<and> (\<forall>c\<in>set chunks. 0 < length c \<and> length c \<le> 4294967295)
        \<and> concat chunks = concat ps
        \<and> (4294967295 < length (concat ps) \<longrightarrow> 2 \<le> length chunks)"
    by (intro exI [of _ "map frame cs @ [final_frame c]"] exI [of _ ?chunks] conjI)
qed


theorem hard_cap_split_witness:
  "staging \<lparr>s_done = False, s_prefix = None,
       s_source = ([Piece (replicate 4294967296 0)], None),
       chunkData = [], chunkSize = 0, remain = None\<rparr>
   \<and> StreamIterator_next
       \<lparr>s_done = False, s_prefix = None,
        s_source = ([Piece (replicate 4294967296 0)], None),
        chunkData = [], chunkSize = 0, remain = None\<rparr> =
     Inr (Some ([255, 255, 255, 255] @ replicate 4294967295 0),
          \<lparr>s_done = False, s_prefix = None, s_source = ([], None),
           chunkData = [], chunkSize = 0, remain = Some [0]\<rparr>)
   \<and> (\<exists>out chunks.
        StreamIterator_collect
          (new_StreamIterator STREAM (map Piece [replicate 4294967296 0], None)) =
          ([TYPES_code STREAM] # out, None)
        \<and> wire_chunks (concat out) = Some (chunks @ [[]])
        \<and> concat chunks = concat [replicate 4294967296 0]
        \<and> 2 \<le> length chunks)"
proof -
  let ?v = "replicate 4294967296 (0 :: byte)"
  let ?it = "\<lparr>s_done = False, s_prefix = None, s_source = ([Piece ?v], None),
       chunkData = [], chunkSize = 0, remain = None\<rparr>"
  note h = hard_cap_split [of ?it ?v "[]" None STREAM "[?v]"]
  have s: "staging ?it" by (simp add: staging_def)
  have p: "staging ?it \<and> chunkSize ?it < 65536 \<and> carried ?it = []
      \<and> s_source ?it = (Piece ?v # [], None) \<and> 4294967295 < chunkSize ?it + length ?v"
    by (simp add: staging_def carried_def)
  have r: "drop 4294967295 ?v = [0]" "take 4294967295 ?v = replicate 4294967295 0" by simp_all
  have sz: "setUint32 4294967295 = [255, 255, 255, 255]" by (simp add: setUint32_bytes)
  from h [THEN conjunct1, rule_format, OF p]
  have n: "StreamIterator_next ?it =
     Inr (Some ([255, 255, 255, 255] @ replicate 4294967295 0),
          \<lparr>s_done = False, s_prefix = None, s_source = ([], None),
           chunkData = [], chunkSize = 0, remain = Some [0]\<rparr>)"
    by (simp add: r sz)
  from h [THEN conjunct2] obtain out chunks where
    c: "StreamIterator_collect (new_StreamIterator STREAM (map Piece [?v], None)) =
          ([TYPES_code STREAM] # out, None)"
      "wire_chunks (concat out) = Some (chunks @ [[]])"
      "concat chunks = concat [?v]"
      "4294967295 < length (concat [?v]) \<longrightarrow> 2 \<le> length chunks"
    by blast
  have "4294967295 < length (concat [?v])" by simp
  with c(4) have "2 \<le> length chunks" by blast
  with c(1,2,3) have "\<exists>out chunks.
        StreamIterator_collect (new_StreamIterator STREAM (map Piece [?v], None)) =
          ([TYPES_code STREAM] # out, None)
        \<and> wire_chunks (concat out) = Some (chunks @ [[]])
        \<and> concat chunks = concat [?v]
        \<and> 2 \<le> length chunks"
    by blast
  with s n show ?thesis by (intro conjI)
qed


lemma collect_step:
  "StreamIterator_next it = Inr (Some c, it') \<Longrightarrow>
   StreamIterator_collect it = (case StreamIterator_collect it' of (cs, e) \<Rightarrow> (c # cs, e))"
  by (simp add: StreamIterator_collect.simps [of it])

lemma next_end:
  assumes "staging it" "chunkSize it < 65536" "carried it = []" "s_source it = ([], None)"
  shows "StreamIterator_next it =
    Inr (Some (final_frame (concat (chunkData it))),
         it\<lparr>s_done := True, chunkData := [], chunkSize := 0\<rparr>)"
proof -
  from assms(3,4) have "take_item it = Inr (None, it)"
    by (auto simp: take_item_def carried_def split: option.splits list.splits)
  with next_take [OF assms(1)] assms(1,2) show ?thesis
    by (auto simp: final_frame_def staging_def)
qed

lemma parser_Cons:
  "parser opts paths (t # bs1) =
     (if enat (length paths) > maxDepth opts then Inl DepthExceeded
      else if t = TYPES_code NULL then Inr (VNull, bs1)
      else if t = TYPES_code UNDEFINED then Inr (VUndefined, bs1)
      else if t = TYPES_code BOOLEAN then parse_boolean bs1
      else if t = TYPES_code NUMBER then parse_number bs1
      else if t = TYPES_code STREAM then parse_stream opts bs1
      else if t = TYPES_code STRING then parse_string opts bs1
      else if t = TYPES_code ARRAY then
        (case splitChunkedStream bs1 of (sub, beyond) \<Rightarrow> parse_array opts paths [] sub beyond)
      else if t = TYPES_code OBJECT then
        (case splitChunkedStream bs1 of
           (sub, beyond) \<Rightarrow> parse_object opts paths new_object 0 sub beyond)
      else Inl InvalidType)"
  by (simp add: parser.simps [of opts paths "t # bs1"] readEnoughSize_def Let_def)

lemma parser_Nil:
  "parser opts paths [] =
     (if enat (length paths) > maxDepth opts then Inl DepthExceeded else Inl NotEnoughData)"
  by (simp add: parser.simps [of opts paths "[]"] readEnoughSize_def)

text \<open>
  Claim C4. A piece that fits is staged whole, and \<open>next\<close> returns a chunk as soon as at
  least 65536 bytes are staged; the threshold is looked at only after a whole piece, so
  a single piece of 65536 bytes or more (and at most 4294967295) is emitted as one
  chunk, followed by the terminating chunk, and decodes to the same bytes.
\<close>

theorem soft_threshold:
  "(staging it \<and> chunkSize it < 65536 \<and> carried it = [] \<and> s_source it = (Piece v # xs, e)
      \<and> chunkSize it + length v \<le> 4294967295 \<longrightarrow>
    StreamIterator_next it =
      StreamIterator_next
        (it\<lparr>s_source := (xs, e), chunkData := chunkData it @ [v],
            chunkSize := chunkSize it + length v\<rparr>)
    \<and> (65536 \<le> chunkSize it + length v \<longrightarrow>
         StreamIterator_next it =
           Inr (Some (frame (concat (chunkData it) @ v)),
                it\<lparr>s_source := (xs, e), chunkData := [], chunkSize := 0\<rparr>)))
   \<and> (65536 \<le> length p \<and> length p \<le> 4294967295 \<longrightarrow>
        generator h (JUint8Array p) = ([[TYPES_code STREAM], frame p, frame []], None)
        \<and> parser default_options [] (concat [[TYPES_code STREAM], frame p, frame []]) =
            Inr (VStream p, []))"
proof -
  have step: "StreamIterator_next it =
      StreamIterator_next
        (it\<lparr>s_source := (xs, e), chunkData := chunkData it @ [v],
            chunkSize := chunkSize it + length v\<rparr>)
    \<and> (65536 \<le> chunkSize it + length v \<longrightarrow>
         StreamIterator_next it =
           Inr (Some (frame (concat (chunkData it) @ v)),
                it\<lparr>s_source := (xs, e), chunkData := [], chunkSize := 0\<rparr>))"
    if a: "staging it" "chunkSize it < 65536" "carried it = []"
      "s_source it = (Piece v # xs, e)" "chunkSize it + length v \<le> 4294967295"
    for it v xs e
  proof -
    let ?it = "it\<lparr>s_source := (xs, e), chunkData := chunkData it @ [v],
            chunkSize := chunkSize it + length v\<rparr>"
    from a(5) have "length v \<le> 4294967295 - chunkSize it" by linarith
    then have p: "push_piece v (it\<lparr>s_source := (xs, e)\<rparr>) = ?it"
      by (simp add: push_piece_def Let_def)
    from a have st: "staging ?it" by (auto simp: staging_def)
    from next_piece [OF a(1-4)] p have n: "StreamIterator_next it = StreamIterator_next ?it"
      by simp
    moreover have "StreamIterator_next ?it =
        Inr (Some (frame (concat (chunkData it) @ v)),
             it\<lparr>s_source := (xs, e), chunkData := [], chunkSize := 0\<rparr>)"
      if "65536 \<le> chunkSize it + length v"
      using next_flush [OF st] that by simp
    ultimately show ?thesis by simp
  qed
  have stream: "generator h (JUint8Array p) = ([[TYPES_code STREAM], frame p, frame []], None)
        \<and> parser default_options [] (concat [[TYPES_code STREAM], frame p, frame []]) =
            Inr (VStream p, [])"
    if b: "65536 \<le> length p" "length p \<le> 4294967295"
  proof -
    let ?it0 = "new_StreamIterator STREAM ([Piece p], None)"
    let ?it1 = "?it0\<lparr>s_prefix := None\<rparr>"
    let ?it2 = "?it1\<lparr>s_source := ([], None), chunkData := [], chunkSize := 0\<rparr>"
    let ?it3 = "?it2\<lparr>s_done := True, chunkData := [], chunkSize := 0\<rparr>"
    have s1: "staging ?it1" "chunkSize ?it1 < 65536" "carried ?it1 = []"
      "s_source ?it1 = (Piece p # [], None)" "chunkSize ?it1 + length p \<le> 4294967295"
      "65536 \<le> chunkSize ?it1 + length p"
      using b by (simp_all add: staging_def new_StreamIterator_def carried_def)
    from step [OF s1(1-5), THEN conjunct2, rule_format, OF s1(6)] have n1: "StreamIterator_next ?it1 = Inr (Some (frame p), ?it2)"
      by (simp add: new_StreamIterator_def)
    have s2: "staging ?it2" "chunkSize ?it2 < 65536" "carried ?it2 = []"
      "s_source ?it2 = ([], None)"
      by (simp_all add: staging_def new_StreamIterator_def carried_def)
    from next_end [OF s2] have n2: "StreamIterator_next ?it2 = Inr (Some (frame []), ?it3)"
      by (simp add: new_StreamIterator_def final_frame_def)
    have "StreamIterator_collect ?it3 = ([], None)"
      by (rule collect_done) simp
    with collect_step [OF n2] have "StreamIterator_collect ?it2 = ([frame []], None)" by simp
    with collect_step [OF n1] have "StreamIterator_collect ?it1 = ([frame p, frame []], None)"
      by simp
    moreover have "StreamIterator_collect ?it0 =
        (case StreamIterator_collect ?it1 of (out, e) \<Rightarrow> ([TYPES_code STREAM] # out, e))"
      by (rule collect_prefix) (simp_all add: new_StreamIterator_def)
    ultimately have g: "generator h (JUint8Array p) =
        ([[TYPES_code STREAM], frame p, frame []], None)"
      by simp
    from splitChunkedStream_chunked [of "[p]" "[]" "[]"] b
    have "splitChunkedStream (frame p @ frame []) = (p, Some [])"
      by (simp add: final_frame_eq)
    then have "parser default_options [] (concat [[TYPES_code STREAM], frame p, frame []]) =
        Inr (VStream p, [])"
      by (simp add: parser_Cons default_options_def parse_stream_def readChunkedStream_def)
    with g show ?thesis by simp
  qed
  from step stream show ?thesis by blast
qed

theorem soft_threshold_witness:
  "65536 \<le> length (replicate 5000000 (0 :: byte))
   \<and> length (replicate 5000000 (0 :: byte)) \<le> 4294967295
   \<and> generator [] (JUint8Array (replicate 5000000 0)) =
       ([[TYPES_code STREAM], frame (replicate 5000000 0), frame []], None)
   \<and> parser default_options []
         (concat [[TYPES_code STREAM], frame (replicate 5000000 0), frame []]) =
       Inr (VStream (replicate 5000000 0), [])
   \<and> frame (replicate 5000000 0) = [0, 76, 75, 64] @ replicate 5000000 0"
proof -
  have l: "65536 \<le> length (replicate 5000000 (0 :: byte))
      \<and> length (replicate 5000000 (0 :: byte)) \<le> 4294967295"
    by simp
  have f: "frame (replicate 5000000 (0 :: byte)) = [0, 76, 75, 64] @ replicate 5000000 0"
    by (simp add: frame_def setUint32_bytes)
  from soft_threshold [of undefined undefined undefined undefined "replicate 5000000 0" "[]",
      THEN conjunct2, rule_format, OF l] l f
  show ?thesis by (intro conjI) simp_all
qed


section \<open>Decoding what was encoded\<close>

text \<open>
  The equality of the round trip: a JavaScript value and a decoded value are the same
  value when they are of the same kind and have the same content. A byte source given in
  pieces has the content of its pieces in order.
\<close>

fun same_value :: "heap \<Rightarrow> jsval \<Rightarrow> value \<Rightarrow> bool"
  and same_values :: "heap \<Rightarrow> jsval list \<Rightarrow> value list \<Rightarrow> bool"
  and same_props :: "heap \<Rightarrow> (jsstring \<times> jsval) list \<Rightarrow> (jsstring \<times> value) list \<Rightarrow> bool" where
  "same_value h v VNull = (v = JNull)"
| "same_value h v VUndefined = (v = JUndefined)"
| "same_value h v (VBoolean b) = (v = JBoolean b)"
| "same_value h v (VNumber n) = (v = JNumber n)"
| "same_value h v (VString s) = (v = JString s)"
| "same_value h v (VStream bs) =
     (case v of
        JUint8Array p \<Rightarrow> bs = p
      | JAsyncIterable items \<Rightarrow> (\<exists>ps. items = map Piece ps \<and> bs = concat ps)
      | _ \<Rightarrow> False)"
| "same_value h v (VArray ps) =
     (case v of
        JRef a \<Rightarrow> (case lookup h a of Some (JArray xs) \<Rightarrow> same_values h xs ps | _ \<Rightarrow> False)
      | _ \<Rightarrow> False)"
| "same_value h v (VObject kps) =
     (case v of
        JRef a \<Rightarrow> (case lookup h a of Some (JObject kvs) \<Rightarrow> same_props h kvs kps | _ \<Rightarrow> False)
      | _ \<Rightarrow> False)"
| "same_values h [] [] = True"
| "same_values h (x # xs) (p # ps) = (same_value h x p \<and> same_values h xs ps)"
| "same_values h [] (p # ps) = False"
| "same_values h (x # xs) [] = False"
| "same_props h [] [] = True"
| "same_props h ((k, x) # kvs) ((k', p) # kps) =
     (k = k' \<and> same_value h x p \<and> same_props h kvs kps)"
| "same_props h [] (kp # kps) = False"
| "same_props h (kv # kvs) [] = False"

text \<open>
  The values that the round trip returns unchanged. A string is \<open>plain\<close> when it consists
  of Unicode scalar values and does not begin with U+FEFF; a value is \<open>plain\<close> when all its
  strings and keys are, and no object in it has the key \<open>__proto__\<close>. (The keys of one
  object are distinct.) A value is \<open>proto_free\<close> when no key in it reaches the decoder's
  object as \<open>__proto__\<close>, so that every pair is stored as an own property.
\<close>

definition plain_string :: "jsstring \<Rightarrow> bool" where
  "plain_string s \<longleftrightarrow> list_all scalar_value s \<and> strip_bom s = s"

fun plain :: "value \<Rightarrow> bool"
  and plains :: "value list \<Rightarrow> bool"
  and plain_props :: "(jsstring \<times> value) list \<Rightarrow> bool" where
  "plain (VString s) = plain_string s"
| "plain (VArray ps) = plains ps"
| "plain (VObject kps) =
     (distinct (map fst kps) \<and> proto_key \<notin> set (map fst kps) \<and> plain_props kps)"
| "plain VNull = True"
| "plain VUndefined = True"
| "plain (VBoolean b) = True"
| "plain (VNumber n) = True"
| "plain (VStream bs) = True"
| "plains [] = True"
| "plains (p # ps) = (plain p \<and> plains ps)"
| "plain_props [] = True"
| "plain_props ((k, p) # kps) = (plain_string k \<and> plain p \<and> plain_props kps)"

fun proto_free :: "value \<Rightarrow> bool"
  and proto_free_list :: "value list \<Rightarrow> bool"
  and proto_free_props :: "(jsstring \<times> value) list \<Rightarrow> bool" where
  "proto_free (VArray ps) = proto_free_list ps"
| "proto_free (VObject kps) = proto_free_props kps"
| "proto_free VNull = True"
| "proto_free VUndefined = True"
| "proto_free (VBoolean b) = True"
| "proto_free (VNumber n) = True"
| "proto_free (VStream bs) = True"
| "proto_free (VString s) = True"
| "proto_free_list [] = True"
| "proto_free_list (p # ps) = (proto_free p \<and> proto_free_list ps)"
| "proto_free_props [] = True"
| "proto_free_props ((k, p) # kps) =
     (TextDecoder_decode False (TextEncoder_encode k) \<noteq> proto_key
      \<and> proto_free p \<and> proto_free_props kps)"

text \<open>
  The first error the decoder meets in the encoding of a value, under given options and
  at a given depth: the limits are tested in the order in which \<open>parser\<close> reads.
\<close>

fun expect :: "options \<Rightarrow> nat \<Rightarrow> value \<Rightarrow> error option"
  and expect_list :: "options \<Rightarrow> nat \<Rightarrow> nat \<Rightarrow> value list \<Rightarrow> error option"
  and expect_props :: "options \<Rightarrow> nat \<Rightarrow> (jsstring \<times> value) list \<Rightarrow> error option" where
  "expect opts d p =
     (if maxDepth opts < enat d then Some DepthExceeded
      else case p of
        VStream bs \<Rightarrow> if streamMaxSize opts < enat (length bs) then Some SizeExceeded else None
      | VString s \<Rightarrow>
          if stringMaxSize opts < enat (length (TextEncoder_encode s))
          then Some StringSizeExceeded else None
      | VArray ps \<Rightarrow> expect_list opts d 0 ps
      | VObject kps \<Rightarrow> expect_props opts d kps
      | _ \<Rightarrow> None)"
| "expect_list opts d i [] = None"
| "expect_list opts d i (p # ps) =
     (if arrayMaxLength opts \<le> enat i then Some ArrayLengthExceeded
      else case expect opts (Suc d) p of
        Some e \<Rightarrow> Some e
      | None \<Rightarrow> expect_list opts d (Suc i) ps)"
| "expect_props opts d [] = None"
| "expect_props opts d ((k, p) # kps) =
     (if objectMaxLength opts \<le> 0 then Some ObjectLengthExceeded
      else if stringMaxSize opts < enat (length (TextEncoder_encode k)) then Some SizeExceeded
      else case expect opts (Suc d) p of
        Some e \<Rightarrow> Some e
      | None \<Rightarrow> expect_props opts d kps)"

text \<open>
  What the decoder makes of the encoding of a decoded value: a string goes through the
  platform's UTF-8 encoder and streaming decoder, a key through the encoder and the
  one-shot decoder, and the pairs of an object are assigned one by one to an object
  that starts empty; the value is the own properties that object has in the end.
\<close>

fun redecode :: "value \<Rightarrow> value"
  and redecode_list :: "value list \<Rightarrow> value list"
  and redecode_props :: "jsobject \<Rightarrow> (jsstring \<times> value) list \<Rightarrow> jsobject" where
  "redecode (VString s) = VString (TextDecoder_decode True (TextEncoder_encode s))"
| "redecode (VArray ps) = VArray (redecode_list ps)"
| "redecode (VObject kps) = VObject (fst (redecode_props new_object kps))"
| "redecode VNull = VNull"
| "redecode VUndefined = VUndefined"
| "redecode (VBoolean b) = VBoolean b"
| "redecode (VNumber n) = VNumber n"
| "redecode (VStream bs) = VStream bs"
| "redecode_list [] = []"
| "redecode_list (p # ps) = redecode p # redecode_list ps"
| "redecode_props acc [] = acc"
| "redecode_props acc ((k, p) # kps) =
     redecode_props
       (set_property (TextDecoder_decode False (TextEncoder_encode k)) (redecode p) acc) kps"

definition answer :: "error option \<Rightarrow> value \<Rightarrow> Uint8Array \<Rightarrow> error + (value \<times> Uint8Array)" where
  "answer e p rest = (case e of None \<Rightarrow> Inr (p, rest) | Some x \<Rightarrow> Inl x)"

definition framed :: "Uint8Array list \<Rightarrow> Uint8Array \<Rightarrow> bool" where
  "framed enc payload \<longleftrightarrow>
     (\<exists>cs c. enc = map frame cs @ [final_frame c] \<and> payload = concat cs @ c
        \<and> (\<forall>c\<in>set cs. 65536 \<le> length c \<and> length c \<le> 4294967295) \<and> length c < 65536)"

lemma framed_split:
  "framed enc payload \<Longrightarrow> splitChunkedStream (concat enc @ rest) = (payload, Some rest)"
  by (auto simp: framed_def splitChunkedStream_chunked simp del: concat_append)

lemma collect_framed:
  "source_error src = None \<Longrightarrow>
   \<exists>enc. StreamIterator_collect (new_StreamIterator type src) = ([TYPES_code type] # enc, None)
     \<and> framed enc (source_bytes src)"
  using new_StreamIterator_collect [of src type]
  by (auto simp: framed_def chunked_def)

text \<open>
  The wire format of section 6 of the specification: the byte strings that are an
  encoding of a decoded value, whatever the boundaries of the chunks.
\<close>

fun encoding :: "value \<Rightarrow> Uint8Array \<Rightarrow> bool"
  and encodings :: "value list \<Rightarrow> Uint8Array \<Rightarrow> bool"
  and encoding_props :: "(jsstring \<times> value) list \<Rightarrow> Uint8Array \<Rightarrow> bool" where
  "encoding VNull bs = (bs = [TYPES_code NULL])"
| "encoding VUndefined bs = (bs = [TYPES_code UNDEFINED])"
| "encoding (VBoolean b) bs = (bs = [TYPES_code BOOLEAN, if b then 1 else 0])"
| "encoding (VNumber n) bs = (bs = TYPES_code NUMBER # setFloat64 n)"
| "encoding (VStream d) bs = (\<exists>enc. bs = TYPES_code STREAM # concat enc \<and> framed enc d)"
| "encoding (VString s) bs =
     (\<exists>enc. bs = TYPES_code STRING # concat enc \<and> framed enc (TextEncoder_encode s))"
| "encoding (VArray ps) bs =
     (\<exists>enc payload. bs = TYPES_code ARRAY # concat enc \<and> framed enc payload
        \<and> encodings ps payload)"
| "encoding (VObject kps) bs =
     (\<exists>enc payload. bs = TYPES_code OBJECT # concat enc \<and> framed enc payload
        \<and> encoding_props kps payload)"
| "encodings [] bs = (bs = [])"
| "encodings (p # ps) bs = (\<exists>b1 b2. bs = b1 @ b2 \<and> encoding p b1 \<and> encodings ps b2)"
| "encoding_props [] bs = (bs = [])"
| "encoding_props ((k, p) # kps) bs =
     (\<exists>enc b1 b2. bs = TYPES_code STRING # concat enc @ b1 @ b2
        \<and> framed enc (TextEncoder_encode k) \<and> encoding p b1 \<and> encoding_props kps b2)"

lemma encoding_not_Nil: "encoding p bs \<Longrightarrow> bs \<noteq> []"
  by (cases p) auto


subsection \<open>The decoder on the wire format\<close>

lemma readChunkedStream_framed:
  "framed enc payload \<Longrightarrow>
   readChunkedStream m (concat enc @ rest) =
     (if m < enat (length payload) then Inl SizeExceeded else Inr (payload, rest))"
  by (simp add: readChunkedStream_def framed_split)

lemma parse_string_framed:
  "framed enc payload \<Longrightarrow>
   parse_string opts (concat enc @ rest) =
     (if stringMaxSize opts < enat (length payload) then Inl StringSizeExceeded
      else Inr (VString (TextDecoder_decode True payload), rest))"
  by (simp add: parse_string_def framed_split)

lemma parse_stream_framed:
  "framed enc payload \<Longrightarrow>
   parse_stream opts (concat enc @ rest) =
     (if streamMaxSize opts < enat (length payload) then Inl SizeExceeded
      else Inr (VStream payload, rest))"
  by (simp add: parse_stream_def readChunkedStream_framed)

lemma parse_boolean_Cons:
  "parse_boolean (b # rest) =
     (if b = 0 then Inr (VBoolean False, rest) else if b = 1 then Inr (VBoolean True, rest)
      else Inl InvalidData)"
  by (simp add: parse_boolean_def readEnoughSize_def)

lemma parse_number_setFloat64:
  "parse_number (setFloat64 n @ rest) = Inr (VNumber n, rest)"
  using getFloat64_setFloat64 [of n "[]"]
  by (simp add: parse_number_def readEnoughSize_def)

lemma parse_array_Nil:
  "parse_array opts paths acc [] beyond =
     (case beyond of None \<Rightarrow> Inl NotEnoughData | Some rest \<Rightarrow> Inr (VArray acc, rest))"
  by (simp add: parse_array.simps)

lemma parse_array_more:
  "sub \<noteq> [] \<Longrightarrow>
   parse_array opts paths acc sub beyond =
     (if arrayMaxLength opts \<le> enat (length acc) then Inl ArrayLengthExceeded
      else case parser opts (paths @ [Index (length acc)]) sub of
        Inl e \<Rightarrow> Inl e
      | Inr (element, sub') \<Rightarrow> parse_array opts paths (acc @ [element]) sub' beyond)"
  by (subst parse_array.simps) simp

lemma parse_object_Nil:
  "parse_object opts paths acc len [] beyond =
     (case beyond of None \<Rightarrow> Inl NotEnoughData | Some rest \<Rightarrow> Inr (VObject (fst acc), rest))"
  by (simp add: parse_object.simps)

lemma parse_object_key:
  assumes "framed enc kb"
  shows "parse_object opts paths acc len (TYPES_code STRING # concat enc @ sub2) beyond =
     (if objectMaxLength opts \<le> enat len then Inl ObjectLengthExceeded
      else if stringMaxSize opts < enat (length kb) then Inl SizeExceeded
      else case parser opts (paths @ [Key (TextDecoder_decode False kb)]) sub2 of
        Inl e \<Rightarrow> Inl e
      | Inr (v, sub3) \<Rightarrow>
          parse_object opts paths (set_property (TextDecoder_decode False kb) v acc) len sub3 beyond)"
  by (subst parse_object.simps)
     (simp add: readEnoughSize_def readChunkedStream_framed [OF assms] Let_def)

lemma put_property_fresh: "k \<notin> fst ` set acc \<Longrightarrow> put_property k p acc = acc @ [(k, p)]"
  by (induction acc) auto

lemma plain_string_decode:
  "plain_string s \<Longrightarrow> TextDecoder_decode stream (TextEncoder_encode s) = s"
  by (simp add: plain_string_def TextDecoder_decode_encode list_all_iff)

definition finish :: "error option \<Rightarrow> value \<Rightarrow> Uint8Array option \<Rightarrow> error + (value \<times> Uint8Array)" where
  "finish e p beyond =
     (case e of
        Some x \<Rightarrow> Inl x
      | None \<Rightarrow> (case beyond of None \<Rightarrow> Inl NotEnoughData | Some rest \<Rightarrow> Inr (p, rest)))"

lemma parser_encoding:
  "\<And>bs paths rest. length paths = d \<Longrightarrow> encoding p bs \<Longrightarrow>
     parser opts paths (bs @ rest) = answer (expect opts d p) (redecode p) rest"
  "\<And>payload paths acc beyond. length paths = d \<Longrightarrow> length acc = i \<Longrightarrow>
     encodings ps payload \<Longrightarrow>
     parse_array opts paths acc payload beyond =
       finish (expect_list opts d i ps) (VArray (acc @ redecode_list ps)) beyond"
  "\<And>payload paths acc beyond. length paths = d \<Longrightarrow> encoding_props kps payload \<Longrightarrow>
     parse_object opts paths acc 0 payload beyond =
       finish (expect_props opts d kps) (VObject (fst (redecode_props acc kps))) beyond"
proof (induction opts d p and opts d i ps and opts d kps
    rule: expect_expect_list_expect_props.induct)
  case (1 opts d p)
  note [simp] = parser_Cons answer_def finish_def parse_string_framed parse_stream_framed
    parse_boolean_Cons parse_number_setFloat64
  show ?case
  proof (cases "maxDepth opts < enat d")
    case True
    with "1.prems" show ?thesis by (cases bs) (auto dest: encoding_not_Nil)
  next
    case False
    show ?thesis
    proof (cases p)
      case (VArray ps)
      with "1.prems" obtain enc payload where
        e: "bs = TYPES_code ARRAY # concat enc" "framed enc payload" "encodings ps payload"
        by auto
      from "1.IH"(1) [OF False VArray "1.prems"(1) _ e(3), of "[]" "Some rest"]
      have "parse_array opts paths [] payload (Some rest) =
          finish (expect_list opts d 0 ps) (VArray (redecode_list ps)) (Some rest)"
        by simp
      with False VArray "1.prems"(1) e show ?thesis
        by (simp add: framed_split split: option.splits)
    next
      case (VObject kps)
      with "1.prems" obtain enc payload where
        e: "bs = TYPES_code OBJECT # concat enc" "framed enc payload" "encoding_props kps payload"
        by auto
      from "1.IH"(2) [OF False VObject "1.prems"(1) e(3), of new_object "Some rest"]
      have "parse_object opts paths new_object 0 payload (Some rest) =
          finish (expect_props opts d kps) (VObject (fst (redecode_props new_object kps)))
            (Some rest)"
        by simp
      with False VObject "1.prems"(1) e show ?thesis
        by (simp add: framed_split split: option.splits)
    qed (use False "1.prems" in auto)
  qed
next
  case (2 opts d i)
  then show ?case by (simp add: parse_array_Nil finish_def)
next
  case (3 opts d i p ps)
  from "3.prems" obtain b1 b2 where
    b: "payload = b1 @ b2" "encoding p b1" "encodings ps b2" by auto
  from b have ne: "payload \<noteq> []" by (auto dest: encoding_not_Nil)
  show ?case
  proof (cases "arrayMaxLength opts \<le> enat i")
    case True
    with "3.prems" ne show ?thesis by (simp add: parse_array_more finish_def)
  next
    case False
    have p: "parser opts (paths @ [Index (length acc)]) (b1 @ b2) =
        answer (expect opts (Suc d) p) (redecode p) b2"
      by (rule "3.IH"(1) [OF False _ b(2)]) (simp add: "3.prems")
    show ?thesis
    proof (cases "expect opts (Suc d) p")
      case (Some e)
      with False p ne b "3.prems" show ?thesis
        by (simp add: parse_array_more finish_def answer_def)
    next
      case None
      from "3.IH"(2) [OF False None "3.prems"(1) _ b(3), of "acc @ [redecode p]" beyond]
        "3.prems"(2)
      have "parse_array opts paths (acc @ [redecode p]) b2 beyond =
          finish (expect_list opts d (Suc i) ps)
            (VArray (acc @ redecode p # redecode_list ps)) beyond"
        by simp
      with None False p ne b "3.prems" show ?thesis
        by (simp add: parse_array_more finish_def answer_def)
    qed
  qed
next
  case (4 opts d)
  then show ?case by (simp add: parse_object_Nil finish_def)
next
  case (5 opts d k p kps)
  from "5.prems" obtain enc b1 b2 where
    b: "payload = TYPES_code STRING # concat enc @ b1 @ b2"
    "framed enc (TextEncoder_encode k)" "encoding p b1" "encoding_props kps b2"
    by auto
  let ?k = "TextDecoder_decode False (TextEncoder_encode k)"
  note key = parse_object_key [OF b(2), of opts paths acc 0 "b1 @ b2" beyond]
  show ?case
  proof (cases "objectMaxLength opts \<le> 0
      \<or> stringMaxSize opts < enat (length (TextEncoder_encode k))")
    case True
    with key b(1) show ?thesis by (auto simp: finish_def zero_enat_def)
  next
    case False
    then have f: "\<not> objectMaxLength opts \<le> 0"
      "\<not> stringMaxSize opts < enat (length (TextEncoder_encode k))" by simp_all
    have p: "parser opts (paths @ [Key ?k]) (b1 @ b2) =
        answer (expect opts (Suc d) p) (redecode p) b2"
      by (rule "5.IH"(1) [OF f _ b(3)]) (simp add: "5.prems")
    show ?thesis
    proof (cases "expect opts (Suc d) p")
      case (Some e)
      with f p key b(1) show ?thesis
        by (simp add: finish_def answer_def zero_enat_def)
    next
      case None
      from "5.IH"(2) [OF f None "5.prems"(1) b(4), of "set_property ?k (redecode p) acc" beyond]
      have "parse_object opts paths (set_property ?k (redecode p) acc) 0 b2 beyond =
          finish (expect_props opts d kps)
            (VObject (fst (redecode_props (set_property ?k (redecode p) acc) kps))) beyond"
        by simp
      with None f p key b(1) show ?thesis
        by (simp add: finish_def answer_def zero_enat_def)
    qed
  qed
qed

lemma redecode_plain:
  "plain p \<Longrightarrow> redecode p = p"
  "plains ps \<Longrightarrow> redecode_list ps = ps"
  "plain_props kps \<Longrightarrow> distinct (map fst (fst acc) @ map fst kps) \<Longrightarrow>
     proto_key \<notin> set (map fst kps) \<Longrightarrow>
     redecode_props acc kps = (fst acc @ kps, snd acc)"
proof (induction p and ps and acc kps rule: redecode_redecode_list_redecode_props.induct)
  case (3 kps)
  then show ?case by (simp add: new_object_def)
next
  case (12 acc k p kps)
  then have "set_property (TextDecoder_decode False (TextEncoder_encode k)) (redecode p) acc =
      (fst acc @ [(k, p)], snd acc)"
    by (cases acc) (auto simp: plain_string_decode set_property_def put_property_fresh)
  with 12 show ?case by simp
qed (simp_all add: plain_string_decode)

subsection \<open>The encoder produces the wire format\<close>

lemma CommonIterator_collect_empty:
  "CommonIterator_collect (new_CommonIterator type ([], None)) = ([[TYPES_code type]], None)"
  by (simp add: CommonIterator_collect.simps CommonIterator_next_def new_CommonIterator_def)

lemma CommonIterator_collect_one:
  "CommonIterator_collect (new_CommonIterator type ([Piece p], None)) =
     ([[TYPES_code type], p], None)"
  by (simp add: CommonIterator_collect.simps CommonIterator_next_def new_CommonIterator_def)

lemma cyclic_child: "x \<in> set (children h a) \<Longrightarrow> cyclic h x \<Longrightarrow> cyclic h (JRef a)"
  unfolding cyclic_def by (blast intro: reaches.inside)

lemma as_source_complete [simp]:
  "source_error (as_source (enc, None)) = None" "source_bytes (as_source (enc, None)) = concat enc"
  by (simp_all add: as_source_def)

lemma multiGenerator_Cons:
  "generator h v = (e1, None) \<Longrightarrow> multiGenerator h vs = (e2, err) \<Longrightarrow>
   multiGenerator h (v # vs) = (e1 @ e2, err)"
  by simp

lemma generator_string_framed:
  "\<exists>enc. generator h (JString s) = ([TYPES_code STRING] # enc, None)
     \<and> framed enc (TextEncoder_encode s)"
  using collect_framed [of "([Piece (TextEncoder_encode s)], None)" STRING] by simp

lemma generator_encoding:
  "\<not> cyclic h v \<Longrightarrow> same_value h v p \<Longrightarrow>
     \<exists>enc. generator h v = (enc, None) \<and> encoding p (concat enc)"
  "\<forall>x\<in>set xs. \<not> cyclic h x \<Longrightarrow> same_values h xs ps \<Longrightarrow>
     \<exists>enc. multiGenerator h xs = (enc, None) \<and> encodings ps (concat enc)"
  "\<forall>x\<in>set (map snd kvs). \<not> cyclic h x \<Longrightarrow> same_props h kvs kps \<Longrightarrow>
     \<exists>enc. multiGenerator h (flatted kvs) = (enc, None) \<and> encoding_props kps (concat enc)"
proof (induction h v p and h xs ps and h kvs kps rule: same_value_same_values_same_props.induct)
  case (1 h v)
  then show ?case by (simp add: CommonIterator_collect_empty)
next
  case (2 h v)
  then show ?case by (simp add: CommonIterator_collect_empty)
next
  case (3 h v b)
  then show ?case by (simp add: CommonIterator_collect_one)
next
  case (4 h v n)
  then show ?case by (simp add: CommonIterator_collect_one)
next
  case (5 h v s)
  with generator_string_framed [of h s] show ?case by (auto simp del: generator.simps)
next
  case (6 h v bs)
  show ?case
  proof (cases v)
    case (JUint8Array p)
    with "6.prems" collect_framed [of "([Piece p], None)" STREAM] show ?thesis by auto
  next
    case (JAsyncIterable items)
    with "6.prems" obtain ps where "items = map Piece ps" "bs = concat ps" by auto
    with JAsyncIterable collect_framed [of "(map Piece ps, None)" STREAM] show ?thesis by auto
  qed (use "6.prems" in simp_all)
next
  case (7 h v ps)
  from "7.prems" obtain a xs where v: "v = JRef a" "lookup h a = Some (JArray xs)"
    "same_values h xs ps"
    by (auto split: jsval.splits option.splits jsobj.splits)
  then have ch: "children h a = xs" by (simp add: children_def)
  with "7.prems"(1) v have "\<forall>x\<in>set xs. \<not> cyclic h x" by (auto dest: cyclic_child)
  from "7.IH" [OF v(1) v(2) refl this v(3)] obtain enc where
    e: "multiGenerator h xs = (enc, None)" "encodings ps (concat enc)" by blast
  from collect_framed [of "as_source (enc, None)" ARRAY] obtain out where
    "StreamIterator_collect (new_StreamIterator ARRAY (as_source (enc, None))) =
       ([TYPES_code ARRAY] # out, None)" "framed out (concat enc)"
    by auto
  with e v "7.prems"(1) show ?case
    by (auto simp: generator_JRef hasCircular_cyclic simp del: generator.simps)
next
  case (8 h v kps)
  from "8.prems" obtain a kvs where v: "v = JRef a" "lookup h a = Some (JObject kvs)"
    "same_props h kvs kps"
    by (auto split: jsval.splits option.splits jsobj.splits)
  then have ch: "children h a = map snd kvs" by (simp add: children_def)
  have "\<forall>x\<in>set (map snd kvs). \<not> cyclic h x"
  proof
    fix x assume "x \<in> set (map snd kvs)"
    with ch have "x \<in> set (children h a)" by simp
    with "8.prems"(1) v(1) show "\<not> cyclic h x" by (auto dest: cyclic_child)
  qed
  from "8.IH" [OF v(1) v(2) refl this v(3)] obtain enc where
    e: "multiGenerator h (flatted kvs) = (enc, None)" "encoding_props kps (concat enc)" by blast
  from collect_framed [of "as_source (enc, None)" OBJECT] obtain out where
    "StreamIterator_collect (new_StreamIterator OBJECT (as_source (enc, None))) =
       ([TYPES_code OBJECT] # out, None)" "framed out (concat enc)"
    by auto
  with e v "8.prems"(1) show ?case
    by (auto simp: generator_JRef hasCircular_cyclic simp del: generator.simps)
next
  case (9 h)
  then show ?case by simp
next
  case (10 h x xs p ps)
  then obtain e1 e2 where "generator h x = (e1, None)" "encoding p (concat e1)"
    "multiGenerator h xs = (e2, None)" "encodings ps (concat e2)"
    by auto
  then show ?case by (auto simp del: generator.simps)
next
  case (13 h)
  then show ?case by (simp add: flatted_def)
next
  case (14 h k x kvs k' p kps)
  then obtain e1 e2 where e: "generator h x = (e1, None)" "encoding p (concat e1)"
    "multiGenerator h (flatted kvs) = (e2, None)" "encoding_props kps (concat e2)"
    by auto
  from generator_string_framed [of h k] obtain ek where
    k: "generator h (JString k) = ([TYPES_code STRING] # ek, None)"
    "framed ek (TextEncoder_encode k)" by blast
  have "multiGenerator h (flatted ((k, x) # kvs)) =
      (([TYPES_code STRING] # ek) @ e1 @ e2, None)"
    unfolding flatted_def using e(1,3) k(1)
    by (simp add: multiGenerator_Cons flatted_def [symmetric] del: generator.simps multiGenerator.simps)
  with e k "14.prems" show ?case by auto
qed simp_all


subsection \<open>A value that has a decoded form has no cycle\<close>

text \<open>
  The depth of a value, as the comment above \<open>parser\<close> defines it: the length of the
  longest access path to a value inside it.
\<close>

fun depth :: "value \<Rightarrow> nat"
  and depth_list :: "value list \<Rightarrow> nat"
  and depth_props :: "(jsstring \<times> value) list \<Rightarrow> nat" where
  "depth (VArray ps) = (if ps = [] then 0 else Suc (depth_list ps))"
| "depth (VObject kps) = (if kps = [] then 0 else Suc (depth_props kps))"
| "depth VNull = 0"
| "depth VUndefined = 0"
| "depth (VBoolean b) = 0"
| "depth (VNumber n) = 0"
| "depth (VStream bs) = 0"
| "depth (VString s) = 0"
| "depth_list [] = 0"
| "depth_list (p # ps) = max (depth p) (depth_list ps)"
| "depth_props [] = 0"
| "depth_props ((k, p) # kps) = max (depth p) (depth_props kps)"

lemma map_Piece_eq [simp]: "map Piece ps = map Piece qs \<longleftrightarrow> ps = qs"
  by (rule inj_map_eq_map) (simp add: inj_def)

lemma same_value_unique:
  "same_value h v p \<Longrightarrow> same_value h v q \<Longrightarrow> p = q"
  "same_values h xs ps \<Longrightarrow> same_values h xs qs \<Longrightarrow> ps = qs"
  "same_props h kvs kps \<Longrightarrow> same_props h kvs kqs \<Longrightarrow> kps = kqs"
proof (induction h v p and h xs ps and h kvs kps arbitrary: q and qs and kqs
    rule: same_value_same_values_same_props.induct)
  case (1 h v)
  then show ?case by (cases q) auto
next
  case (2 h v)
  then show ?case by (cases q) auto
next
  case (3 h v b)
  then show ?case by (cases q) auto
next
  case (4 h v n)
  then show ?case by (cases q) auto
next
  case (5 h v s)
  then show ?case by (cases q) auto
next
  case (6 h v bs)
  then show ?case
    by (cases q; cases v) auto
next
  case (7 h v ps)
  then show ?case
    by (cases q) (auto split: jsval.splits option.splits jsobj.splits)
next
  case (8 h v kps)
  then show ?case
    by (cases q) (auto split: jsval.splits option.splits jsobj.splits)
next
  case (10 h x xs p ps)
  from "10.prems" obtain q qs' where q: "qs = q # qs'" by (cases qs) auto
  with "10.prems" have "same_value h x p" "same_value h x q" "same_values h xs ps"
    "same_values h xs qs'" by simp_all
  with "10.IH" q show ?case by blast
next
  case (14 h k x kvs k' p kps)
  from "14.prems" obtain k2 q kqs' where q: "kqs = (k2, q) # kqs'" by (cases kqs) auto
  with "14.prems" have "k' = k2" "same_value h x p" "same_value h x q" "same_props h kvs kps"
    "same_props h kvs kqs'" by simp_all
  with "14.IH" q show ?case by blast
next
  case (9 h)
  then show ?case by (cases qs) auto
next
  case (13 h)
  then show ?case by (cases kqs) auto
qed simp_all


lemma same_values_member:
  "same_values h xs ps \<Longrightarrow> x \<in> set xs \<Longrightarrow> \<exists>q\<in>set ps. same_value h x q"
proof (induction xs arbitrary: ps)
  case (Cons y ys)
  then show ?case by (cases ps) auto
qed simp

lemma same_props_member:
  "same_props h kvs kps \<Longrightarrow> x \<in> snd ` set kvs \<Longrightarrow> \<exists>q\<in>snd ` set kps. same_value h x q"
proof (induction kvs arbitrary: kps)
  case (Cons kv kvs)
  obtain k y where kv: "kv = (k, y)" by (cases kv)
  from Cons.prems(1) kv obtain k' q kps' where kps: "kps = (k', q) # kps'"
    by (cases kps) auto
  with Cons kv show ?case by fastforce
qed simp

lemma depth_list_member: "q \<in> set ps \<Longrightarrow> depth q \<le> depth_list ps"
  by (induction ps) auto

lemma depth_props_member: "q \<in> snd ` set kps \<Longrightarrow> depth q \<le> depth_props kps"
  by (induction kps) (force simp: image_iff)+

lemma same_value_child:
  assumes "same_value h (JRef b) q" "x \<in> set (children h b)"
  shows "\<exists>qx. same_value h x qx \<and> depth qx < depth q"
proof (cases q)
  case (VArray ps)
  with assms(1) obtain xs where xs: "lookup h b = Some (JArray xs)" "same_values h xs ps"
    by (auto split: option.splits jsobj.splits)
  with assms(2) have "x \<in> set xs" by (simp add: children_def)
  from same_values_member [OF xs(2) this] obtain qx where "qx \<in> set ps" "same_value h x qx"
    by blast
  with VArray depth_list_member [of qx ps] show ?thesis by (cases ps) auto
next
  case (VObject kps)
  with assms(1) obtain kvs where kvs: "lookup h b = Some (JObject kvs)" "same_props h kvs kps"
    by (auto split: option.splits jsobj.splits)
  with assms(2) have "x \<in> snd ` set kvs" by (simp add: children_def)
  from same_props_member [OF kvs(2) this] obtain qx where
    "qx \<in> snd ` set kps" "same_value h x qx" by blast
  with VObject depth_props_member [of qx kps] show ?thesis by (cases kps) auto
qed (use assms(1) in simp_all)

lemma same_value_inside:
  "reaches h v b \<Longrightarrow> same_value h v p \<Longrightarrow> \<exists>q. same_value h (JRef b) q \<and> depth q \<le> depth p"
proof (induction arbitrary: p rule: reaches.induct)
  case (here a)
  then show ?case by blast
next
  case (inside x a b)
  from same_value_child [OF inside.prems inside.hyps(1)] obtain qx where
    "same_value h x qx" "depth qx < depth p" by blast
  with inside.IH [of qx] show ?case by fastforce
qed

lemma same_value_acyclic: "same_value h v p \<Longrightarrow> \<not> cyclic h v"
proof
  assume s: "same_value h v p" and "cyclic h v"
  then obtain b x where b: "reaches h v b" "x \<in> set (children h b)" "reaches h x b"
    by (auto simp: cyclic_def)
  from same_value_inside [OF b(1) s] obtain q where q: "same_value h (JRef b) q" by blast
  from same_value_child [OF q b(2)] obtain qx where
    qx: "same_value h x qx" "depth qx < depth q" by blast
  from same_value_inside [OF b(3) qx(1)] obtain q' where
    "same_value h (JRef b) q'" "depth q' \<le> depth qx" by blast
  with same_value_unique(1) [OF q] qx(2) show False by auto
qed

subsection \<open>Decoding the encoding of a value\<close>

lemma expect_default:
  "expect default_options d p = None"
  "expect_list default_options d i ps = None"
  "expect_props default_options d kps = None"
  by (induction default_options d p and default_options d i ps and default_options d kps
      rule: expect_expect_list_expect_props.induct)
     (auto simp: default_options_def split: "value.splits")

lemma parser_generator:
  assumes "same_value h v p"
  shows "\<exists>enc. generator h v = (enc, None)
    \<and> (\<forall>opts paths rest.
          parser opts paths (concat enc @ rest) =
            answer (expect opts (length paths) p) (redecode p) rest)"
proof -
  from generator_encoding(1) [OF same_value_acyclic [OF assms] assms] obtain enc where
    "generator h v = (enc, None)" "encoding p (concat enc)" by blast
  with parser_encoding(1) [OF refl this(2)] show ?thesis by blast
qed

lemma decode_encode_plain:
  assumes "same_value h v p" and "plain p"
  shows "\<exists>enc. generator h v = (enc, None)
    \<and> parser default_options [] (concat enc) = Inr (p, [])"
proof -
  from parser_generator [OF assms(1)] obtain enc where
    e: "generator h v = (enc, None)"
    "\<forall>opts paths rest. parser opts paths (concat enc @ rest) =
        answer (expect opts (length paths) p) (redecode p) rest"
    by blast
  from e(2) have "parser default_options [] (concat enc @ []) =
      answer (expect default_options (length ([] :: pathseg list)) p) (redecode p) []"
    by blast
  with e(1) assms(2) show ?thesis
    by (simp add: expect_default redecode_plain answer_def
        del: generator.simps expect.simps)
qed

lemma utf8_replacement: "utf8_bytes 65533 = [239, 191, 189]"
  by (simp add: utf8_bytes_def Let_def)

lemma decode_replacement:
  "utf8_decode f utf8_decoder_init ([239, 191, 189] @ bs) =
     65533 # utf8_decode f utf8_decoder_init bs"
  using utf8_decode_bytes [of 65533 f bs]
  by (simp add: utf8_replacement scalar_value_def is_surrogate_def)

lemma lone_surrogate: "TextDecoder_decode True (TextEncoder_encode [55296]) = [65533]"
  using decode_replacement [of "False" "[]"]
  by (simp add: TextDecoder_decode_def TextEncoder_encode_def is_surrogate_def utf8_replacement)

lemma decode_lone_surrogate:
  "\<exists>enc. generator h (JString [55296]) = (enc, None)
     \<and> parser default_options [] (concat enc) = Inr (VString [65533], [])"
proof -
  have s: "same_value h (JString [55296]) (VString [55296])" by simp
  from parser_generator [OF s] obtain enc where
    e: "generator h (JString [55296]) = (enc, None)"
    "\<forall>opts paths rest. parser opts paths (concat enc @ rest) =
        answer (expect opts (length paths) (VString [55296])) (redecode (VString [55296])) rest"
    by blast
  from e(2) have "parser default_options [] (concat enc @ []) =
      answer (expect default_options (length ([] :: pathseg list)) (VString [55296]))
        (redecode (VString [55296])) []"
    by blast
  with e(1) show ?thesis
    by (simp add: expect_default answer_def lone_surrogate del: generator.simps expect.simps)
qed

section \<open>The round trip\<close>

text \<open>
  Claim C1, as the code has it. Let \<open>v\<close> be a supported value and \<open>p\<close> the tree it denotes
  (\<open>same_value h v p\<close>: null, undefined, a boolean, a number as its 64 bits, a string, a
  byte array or a source of byte pieces as the bytes it delivers, an array, an object with
  its own properties in order). If \<open>p\<close> is \<open>plain\<close>, that is, every string and key in it
  consists of Unicode scalar values and does not begin with U+FEFF, and no object in it has
  the key \<open>__proto__\<close>, then the encoder runs to its end without an error and the decoder,
  under the default options, returns exactly \<open>p\<close> from the concatenated chunks and leaves
  no byte unread.
\<close>

theorem roundtrip:
  assumes "same_value h v p" and "plain p"
  shows "\<exists>enc. generator h v = (enc, None)
    \<and> parser default_options [] (concat enc) = Inr (p, [])"
  using assms by (rule decode_encode_plain)

theorem roundtrip_witness:
  "same_value [JObject [([102, 111, 111], JRef 1)],
               JObject [([98, 97, 114], JString [98, 97, 122, 20013, 25991, 128522])]]
     (JRef 0) (VObject [([102, 111, 111],
                 VObject [([98, 97, 114], VString [98, 97, 122, 20013, 25991, 128522])])])
   \<and> plain (VObject [([102, 111, 111],
                 VObject [([98, 97, 114], VString [98, 97, 122, 20013, 25991, 128522])])])
   \<and> (\<exists>enc. generator [JObject [([102, 111, 111], JRef 1)],
               JObject [([98, 97, 114], JString [98, 97, 122, 20013, 25991, 128522])]]
           (JRef 0) = (enc, None)
        \<and> parser default_options [] (concat enc) =
            Inr (VObject [([102, 111, 111],
                   VObject [([98, 97, 114], VString [98, 97, 122, 20013, 25991, 128522])])], []))"
proof -
  let ?h = "[JObject [([102, 111, 111], JRef 1)],
               JObject [([98, 97, 114], JString [98, 97, 122, 20013, 25991, 128522])]]"
  let ?p = "VObject [([102, 111, 111],
                 VObject [([98, 97, 114], VString [98, 97, 122, 20013, 25991, 128522])])]"
  have s: "same_value ?h (JRef 0) ?p" by (simp add: lookup_def)
  have p: "plain ?p"
    by (simp add: plain_string_def scalar_value_def is_surrogate_def proto_key_def)
  from roundtrip [OF s p] s p show ?thesis by blast
qed

text \<open>
  The claim as it is written fails for a string that holds a lone surrogate: UTF-8 has no
  bytes for the code unit U+D800, the platform's encoder writes U+FFFD in its place, and
  the decoder returns the one-character string U+FFFD.
\<close>

theorem roundtrip_counterexample:
  "snd (generator [] (JString [55296])) = None
   \<and> parser default_options [] (concat (fst (generator [] (JString [55296])))) =
       Inr (VString [65533], [])
   \<and> \<not> same_value [] (JString [55296]) (VString [65533])"
  using decode_lone_surrogate [of "[]"] by (auto simp del: generator.simps)

section \<open>Wrapper objects\<close>

text \<open>
  Claim C10, as the code has it. A \<open>Boolean\<close>, \<open>Number\<close> or \<open>String\<close> object is encoded
  exactly as the primitive it wraps. Decoding the chunks of a \<open>Boolean\<close> or \<open>Number\<close>
  object gives the primitive, and decoding those of a \<open>String\<close> object gives the primitive
  string when it consists of Unicode scalar values and does not begin with U+FEFF.
\<close>

theorem wrapper_objects:
  "generator h (JBooleanObject b) = generator h (JBoolean b)
   \<and> generator h (JNumberObject n) = generator h (JNumber n)
   \<and> generator h (JStringObject s) = generator h (JString s)
   \<and> (\<exists>enc. generator h (JBooleanObject b) = (enc, None)
        \<and> parser default_options [] (concat enc) = Inr (VBoolean b, []))
   \<and> (\<exists>enc. generator h (JNumberObject n) = (enc, None)
        \<and> parser default_options [] (concat enc) = Inr (VNumber n, []))
   \<and> (plain_string s \<longrightarrow>
        (\<exists>enc. generator h (JStringObject s) = (enc, None)
          \<and> parser default_options [] (concat enc) = Inr (VString s, [])))"
proof -
  have b: "generator h (JBooleanObject b) = generator h (JBoolean b)" by simp
  have n: "generator h (JNumberObject n) = generator h (JNumber n)" by simp
  have s: "generator h (JStringObject s) = generator h (JString s)" by simp
  have "\<exists>enc. generator h (JBoolean b) = (enc, None)
        \<and> parser default_options [] (concat enc) = Inr (VBoolean b, [])"
    by (rule decode_encode_plain) simp_all
  moreover have "\<exists>enc. generator h (JNumber n) = (enc, None)
        \<and> parser default_options [] (concat enc) = Inr (VNumber n, [])"
    by (rule decode_encode_plain) simp_all
  moreover have "\<exists>enc. generator h (JString s) = (enc, None)
        \<and> parser default_options [] (concat enc) = Inr (VString s, [])"
    if "plain_string s"
    by (rule decode_encode_plain) (use that in simp_all)
  ultimately show ?thesis unfolding b n s by blast
qed

text \<open>
  The inputs are those of the repository's test cases: \<open>new Boolean(true)\<close>,
  \<open>new Number(0.1)\<close>, whose 64 bits are \<open>0x3FB999999999999A\<close>, and a \<open>String\<close> object
  holding three ASCII letters, two Chinese characters and an emoji.
\<close>

theorem wrapper_objects_witness:
  "plain_string [97, 98, 99, 20013, 25991, 128522]
   \<and> generator [] (JBooleanObject True) = generator [] (JBoolean True)
   \<and> generator [] (JNumberObject 4591870180066957722) = generator [] (JNumber 4591870180066957722)
   \<and> generator [] (JStringObject [97, 98, 99, 20013, 25991, 128522]) =
       generator [] (JString [97, 98, 99, 20013, 25991, 128522])
   \<and> (\<exists>enc. generator [] (JBooleanObject True) = (enc, None)
        \<and> parser default_options [] (concat enc) = Inr (VBoolean True, []))
   \<and> (\<exists>enc. generator [] (JNumberObject 4591870180066957722) = (enc, None)
        \<and> parser default_options [] (concat enc) = Inr (VNumber 4591870180066957722, []))
   \<and> (\<exists>enc. generator [] (JStringObject [97, 98, 99, 20013, 25991, 128522]) = (enc, None)
        \<and> parser default_options [] (concat enc) =
            Inr (VString [97, 98, 99, 20013, 25991, 128522], []))"
proof -
  have p: "plain_string [97, 98, 99, 20013, 25991, 128522]"
    by (simp add: plain_string_def scalar_value_def is_surrogate_def)
  from p wrapper_objects [of "[]" True 4591870180066957722 "[97, 98, 99, 20013, 25991, 128522]"]
  show ?thesis by blast
qed

text \<open>
  Decoding the chunks of a \<open>String\<close> object that wraps the lone surrogate U+D800 does
  not give the primitive it wraps: the result is the string U+FFFD.
\<close>

theorem wrapper_objects_counterexample:
  "snd (generator [] (JStringObject [55296])) = None
   \<and> parser default_options [] (concat (fst (generator [] (JStringObject [55296])))) =
       Inr (VString [65533], [])
   \<and> VString [65533] \<noteq> VString [55296]"
proof -
  have "generator [] (JStringObject [55296]) = generator [] (JString [55296])"
    by simp
  with decode_lone_surrogate [of "[]"] show ?thesis
    by (auto simp del: generator.simps)
qed

section \<open>The depth limit\<close>




section \<open>The limit on the length of an array\<close>







section \<open>A value of no supported kind\<close>

lemma multiGenerator_unsupported:
  "multiGenerator h xs = (enc, None) \<Longrightarrow>
     multiGenerator h (xs @ JOther # ys) = (enc, Some InvalidData)"
proof (induction xs arbitrary: enc)
  case Nil
  then show ?case by simp
next
  case (Cons x xs)
  obtain e1 r1 where g: "generator h x = (e1, r1)" by (cases "generator h x")
  obtain e2 r2 where m: "multiGenerator h xs = (e2, r2)" by (cases "multiGenerator h xs")
  from Cons.prems g m have "r1 = None" "r2 = None" "enc = e1 @ e2"
    by (auto simp del: generator.simps split: option.splits)
  with Cons.IH [of e2] g m show ?case
    by (simp del: generator.simps)
qed

lemma collect_failed:
  "\<exists>cs c. StreamIterator_collect (new_StreamIterator type (as_source (enc, Some e))) =
       ([TYPES_code type] # map frame cs, Some e)
     \<and> concat enc = concat cs @ c \<and> length c < 65536 \<and> (\<forall>x\<in>set cs. 65536 \<le> length x)"
  using new_StreamIterator_collect [of "as_source (enc, Some e)" type]
  by (auto simp: as_source_def chunked_def)

lemma flatted_append:
  "flatted (kvs @ (k, v) # kws) = (flatted kvs @ [JString k]) @ v # flatted kws"
  by (simp add: flatted_def)

lemma generator_unsupported_array:
  assumes "lookup h a = Some (JArray (xs @ JOther # ys))" "\<not> cyclic h (JRef a)"
    "multiGenerator h xs = (enc, None)"
  shows "\<exists>cs c. generator h (JRef a) = ([TYPES_code ARRAY] # map frame cs, Some InvalidData)
     \<and> concat enc = concat cs @ c \<and> length c < 65536 \<and> (\<forall>x\<in>set cs. 65536 \<le> length x)"
  using assms(1,2) collect_failed [of ARRAY enc InvalidData]
    multiGenerator_unsupported [OF assms(3), of ys]
  by (simp add: generator_JRef hasCircular_cyclic del: generator.simps)

lemma generator_unsupported_object:
  assumes "lookup h a = Some (JObject (kvs @ (k, JOther) # kws))" "\<not> cyclic h (JRef a)"
    "multiGenerator h (flatted kvs @ [JString k]) = (enc, None)"
  shows "\<exists>cs c. generator h (JRef a) = ([TYPES_code OBJECT] # map frame cs, Some InvalidData)
     \<and> concat enc = concat cs @ c \<and> length c < 65536 \<and> (\<forall>x\<in>set cs. 65536 \<le> length x)"
  using assms(1,2) collect_failed [of OBJECT enc InvalidData]
    multiGenerator_unsupported [OF assms(3), of "flatted kws"]
  by (simp add: generator_JRef hasCircular_cyclic flatted_append
      del: generator.simps append_assoc)

lemma StreamIterator_collect_tag:
  "StreamIterator_collect (new_StreamIterator type src) \<noteq> ([], e)"
proof -
  from new_StreamIterator_collect [of src type] obtain cs c where
    "StreamIterator_collect (new_StreamIterator type src) =
       (case chunked cs c (source_error src) of (out, e) \<Rightarrow> ([TYPES_code type] # out, e))"
    by blast
  then show ?thesis by (cases "chunked cs c (source_error src)") simp
qed

lemma CommonIterator_collect_tag:
  "CommonIterator_collect (new_CommonIterator type src) \<noteq> ([], e)"
  by (subst CommonIterator_collect.simps)
     (simp add: CommonIterator_next_def new_CommonIterator_def split: prod.splits)

text \<open>
  \<open>generator\<close> throws \<open>Invalid data\<close>, with nothing emitted, for the functions and the
  objects of no supported kind and for no other value: the iterator of every supported
  value emits its tag first, and a \<open>BigInt\<close> or a \<open>Symbol\<close> ends in a \<open>TypeError\<close>.
\<close>

lemma generator_InvalidData:
  "generator h v = ([], Some InvalidData)
     \<longleftrightarrow> v = JOther \<or> (\<exists>a. v = JRef a \<and> lookup h a = None)"
proof (cases v)
  case (JRef a)
  show ?thesis
  proof (cases "lookup h a")
    case None
    with JRef show ?thesis by simp
  next
    case (Some ob)
    with JRef show ?thesis
      by (cases ob)
         (simp_all add: generator_JRef StreamIterator_collect_tag del: generator.simps)
  qed
qed (simp_all add: StreamIterator_collect_tag CommonIterator_collect_tag)

lemma generator_TypeError:
  "generator h v = ([], Some TypeError) \<longleftrightarrow> v = JBigInt \<or> v = JSymbol"
proof (cases v)
  case (JRef a)
  show ?thesis
  proof (cases "lookup h a")
    case None
    with JRef show ?thesis by simp
  next
    case (Some ob)
    with JRef show ?thesis
      by (cases ob)
         (simp_all add: generator_JRef StreamIterator_collect_tag del: generator.simps)
  qed
qed (simp_all add: StreamIterator_collect_tag CommonIterator_collect_tag)

text \<open>
  Claim C8, as the code has it. \<open>generator\<close> fails with \<open>InvalidData\<close>, before any byte,
  on a function or an object of no supported kind, and only on these. When such a value
  follows the values \<open>xs\<close> in the array handed to \<open>multiGenerator\<close>, the iteration
  yields every chunk of \<open>xs\<close> and then ends in \<open>InvalidData\<close>. When it is an element of
  an array, or the value of a property of an object, and \<open>enc\<close> is what the elements
  before it (for an object, the keys and values before it and its own key) encode to, the
  iteration of the composite ends in \<open>InvalidData\<close> after it has emitted the tag of the
  composite and the chunks that were complete by then, each of at least 65536 bytes.
  These chunks hold the bytes of \<open>enc\<close> in order up to a rest \<open>c\<close> of fewer than 65536
  bytes, which was still staged when the error came and is never emitted.
\<close>

theorem unsupported_value:
  "(generator h v = ([], Some InvalidData)
      \<longleftrightarrow> v = JOther \<or> (\<exists>b. v = JRef b \<and> lookup h b = None))
   \<and> (multiGenerator h xs = (enc, None) \<longrightarrow>
        multiGenerator h (xs @ JOther # ys) = (enc, Some InvalidData))
   \<and> (lookup h a = Some (JArray (xs @ JOther # ys)) \<and> \<not> cyclic h (JRef a)
        \<and> multiGenerator h xs = (enc, None) \<longrightarrow>
       (\<exists>cs c. generator h (JRef a) = ([TYPES_code ARRAY] # map frame cs, Some InvalidData)
          \<and> concat enc = concat cs @ c \<and> length c < 65536
          \<and> (\<forall>x\<in>set cs. 65536 \<le> length x)))
   \<and> (lookup h a = Some (JObject (kvs @ (k, JOther) # kws)) \<and> \<not> cyclic h (JRef a)
        \<and> multiGenerator h (flatted kvs @ [JString k]) = (enc, None) \<longrightarrow>
       (\<exists>cs c. generator h (JRef a) = ([TYPES_code OBJECT] # map frame cs, Some InvalidData)
          \<and> concat enc = concat cs @ c \<and> length c < 65536
          \<and> (\<forall>x\<in>set cs. 65536 \<le> length x)))"
proof (intro conjI impI)
  show "generator h v = ([], Some InvalidData)
      \<longleftrightarrow> v = JOther \<or> (\<exists>b. v = JRef b \<and> lookup h b = None)"
    by (rule generator_InvalidData)
next
  assume "multiGenerator h xs = (enc, None)"
  then show "multiGenerator h (xs @ JOther # ys) = (enc, Some InvalidData)"
    by (rule multiGenerator_unsupported)
next
  assume "lookup h a = Some (JArray (xs @ JOther # ys)) \<and> \<not> cyclic h (JRef a)
        \<and> multiGenerator h xs = (enc, None)"
  then show "\<exists>cs c. generator h (JRef a) = ([TYPES_code ARRAY] # map frame cs, Some InvalidData)
          \<and> concat enc = concat cs @ c \<and> length c < 65536
          \<and> (\<forall>x\<in>set cs. 65536 \<le> length x)"
    using generator_unsupported_array [of h a xs ys enc] by blast
next
  assume "lookup h a = Some (JObject (kvs @ (k, JOther) # kws)) \<and> \<not> cyclic h (JRef a)
        \<and> multiGenerator h (flatted kvs @ [JString k]) = (enc, None)"
  then show "\<exists>cs c. generator h (JRef a) = ([TYPES_code OBJECT] # map frame cs, Some InvalidData)
          \<and> concat enc = concat cs @ c \<and> length c < 65536
          \<and> (\<forall>x\<in>set cs. 65536 \<le> length x)"
    using generator_unsupported_object [of h a kvs k kws enc] by blast
qed

lemma foo: "TextEncoder_encode [102, 111, 111] = [102, 111, 111]"
  by (simp add: TextEncoder_encode_def utf8_bytes_def is_surrogate_def)

lemma generator_foo:
  "generator h (JString [102, 111, 111]) =
     ([[4], [0, 0, 0, 3, 102, 111, 111, 0, 0, 0, 0]], None)"
  by (simp add: collect_small foo final_frame_def frame_def setUint32_bytes generator_JString
      del: generator.simps)

lemma multiGenerator_foo:
  "multiGenerator h [JString [102, 111, 111]] =
     ([[4], [0, 0, 0, 3, 102, 111, 111, 0, 0, 0, 0]], None)"
  using generator_foo [of h] by (simp del: generator.simps)

lemma acyclic_flat:
  "lookup h a = Some ob \<Longrightarrow> \<forall>x\<in>set (children h a). \<forall>b. x \<noteq> JRef b \<Longrightarrow> \<not> cyclic h (JRef a)"
  by (auto simp: hasCircular_cyclic [symmetric] hasCircular_JRef hasCircular_leaf)

text \<open>
  The array \<open>["foo", f]\<close> and the object \<open>{foo: f}\<close>, where \<open>f\<close> is a function.
\<close>

theorem unsupported_value_witness:
  "generator [JArray [JString [102, 111, 111], JOther]] JOther = ([], Some InvalidData)
   \<and> lookup [JArray [JString [102, 111, 111], JOther]] 0 =
       Some (JArray ([JString [102, 111, 111]] @ JOther # []))
   \<and> \<not> cyclic [JArray [JString [102, 111, 111], JOther]] (JRef 0)
   \<and> multiGenerator [JArray [JString [102, 111, 111], JOther]] [JString [102, 111, 111]] =
       ([[4], [0, 0, 0, 3, 102, 111, 111, 0, 0, 0, 0]], None)
   \<and> multiGenerator [JArray [JString [102, 111, 111], JOther]]
        ([JString [102, 111, 111]] @ JOther # []) =
       ([[4], [0, 0, 0, 3, 102, 111, 111, 0, 0, 0, 0]], Some InvalidData)
   \<and> (\<exists>cs c. generator [JArray [JString [102, 111, 111], JOther]] (JRef 0) =
          ([TYPES_code ARRAY] # map frame cs, Some InvalidData)
        \<and> concat [[4], [0, 0, 0, 3, 102, 111, 111, 0, 0, 0, 0]] = concat cs @ c
        \<and> length c < 65536 \<and> (\<forall>x\<in>set cs. 65536 \<le> length x))
   \<and> lookup [JObject [([102, 111, 111], JOther)]] 0 =
       Some (JObject ([] @ ([102, 111, 111], JOther) # []))
   \<and> \<not> cyclic [JObject [([102, 111, 111], JOther)]] (JRef 0)
   \<and> multiGenerator [JObject [([102, 111, 111], JOther)]]
        (flatted [] @ [JString [102, 111, 111]]) =
       ([[4], [0, 0, 0, 3, 102, 111, 111, 0, 0, 0, 0]], None)
   \<and> (\<exists>cs c. generator [JObject [([102, 111, 111], JOther)]] (JRef 0) =
          ([TYPES_code OBJECT] # map frame cs, Some InvalidData)
        \<and> concat [[4], [0, 0, 0, 3, 102, 111, 111, 0, 0, 0, 0]] = concat cs @ c
        \<and> length c < 65536 \<and> (\<forall>x\<in>set cs. 65536 \<le> length x))"
proof -
  let ?h = "[JArray [JString [102, 111, 111], JOther]]"
  let ?g = "[JObject [([102, 111, 111], JOther)]]"
  let ?E = "[[4], [0, 0, 0, 3, 102, 111, 111, 0, 0, 0, 0 :: byte]]"
  have l: "lookup ?h 0 = Some (JArray ([JString [102, 111, 111]] @ JOther # []))"
    by (simp add: lookup_def)
  have n: "\<not> cyclic ?h (JRef 0)"
    by (rule acyclic_flat [OF l]) (simp add: children_def lookup_def)
  have m: "multiGenerator ?h [JString [102, 111, 111]] = (?E, None)"
    by (rule multiGenerator_foo)
  have l': "lookup ?g 0 = Some (JObject ([] @ ([102, 111, 111], JOther) # []))"
    by (simp add: lookup_def)
  have n': "\<not> cyclic ?g (JRef 0)"
    by (rule acyclic_flat [OF l']) (simp add: children_def lookup_def)
  have m': "multiGenerator ?g (flatted [] @ [JString [102, 111, 111]]) = (?E, None)"
    using multiGenerator_foo [of ?g] by (simp add: flatted_def del: multiGenerator.simps)
  from unsupported_value [of ?h JOther "[JString [102, 111, 111]]" ?E "[]" 0] l n m
  have a: "generator ?h JOther = ([], Some InvalidData)"
    and d: "multiGenerator ?h ([JString [102, 111, 111]] @ JOther # []) =
        (?E, Some InvalidData)"
    and b: "\<exists>cs c. generator ?h (JRef 0) = ([TYPES_code ARRAY] # map frame cs, Some InvalidData)
        \<and> concat ?E = concat cs @ c \<and> length c < 65536 \<and> (\<forall>x\<in>set cs. 65536 \<le> length x)"
    by blast+
  from unsupported_value [of ?g _ _ ?E _ 0 "[]" "[102, 111, 111]" "[]"] l' n' m'
  have c: "\<exists>cs c. generator ?g (JRef 0) = ([TYPES_code OBJECT] # map frame cs, Some InvalidData)
        \<and> concat ?E = concat cs @ c \<and> length c < 65536 \<and> (\<forall>x\<in>set cs. 65536 \<le> length x)"
    by blast
  from a l n m d b l' n' m' c show ?thesis by (intro conjI)
qed

text \<open>
  The claim as it is written fails for \<open>["foo", f]\<close>: the twelve bytes that \<open>"foo"\<close>
  encodes to are staged when \<open>generator\<close> throws for \<open>f\<close>, and all that the consumer has
  received when the error reaches it is the tag of the array.
\<close>

theorem unsupported_value_counterexample:
  "generator [JArray [JString [102, 111, 111], JOther]] (JRef 0) = ([[6]], Some InvalidData)
   \<and> generator [JArray [JString [102, 111, 111], JOther]] (JString [102, 111, 111]) =
       ([[4], [0, 0, 0, 3, 102, 111, 111, 0, 0, 0, 0]], None)"
proof -
  let ?h = "[JArray [JString [102, 111, 111], JOther]]"
  have l: "lookup ?h 0 = Some (JArray ([JString [102, 111, 111]] @ JOther # []))"
    by (simp add: lookup_def)
  have n: "\<not> cyclic ?h (JRef 0)"
    by (rule acyclic_flat [OF l]) (simp add: children_def lookup_def)
  from generator_unsupported_array [OF l n multiGenerator_foo] obtain cs c where
    g: "generator ?h (JRef 0) = ([TYPES_code ARRAY] # map frame cs, Some InvalidData)"
    and c: "concat [[4], [0, 0, 0, 3, 102, 111, 111, 0, 0, 0, 0 :: byte]] = concat cs @ c"
      "\<forall>x\<in>set cs. 65536 \<le> length x"
    by blast
  have "cs = []"
  proof (cases cs)
    case (Cons d ds)
    with c(2) have "65536 \<le> length (concat cs @ c)" by simp
    with c(1) [symmetric] show ?thesis by simp
  qed simp
  with g generator_foo [of ?h] show ?thesis by (simp del: generator.simps)
qed

section \<open>An object payload with a key twice\<close>

lemma map_of_put_property: "map_of (put_property k v ps) = (map_of ps)(k \<mapsto> v)"
  by (induction ps) (auto simp: fun_eq_iff)

lemma set_property_other:
  "k \<noteq> proto_key \<Longrightarrow> set_property k v st = (put_property k v (fst st), snd st)"
  by (cases st) (simp add: set_property_def)

lemma redecode_props_proto_free:
  "proto_free_props kps \<Longrightarrow>
   snd (redecode_props st kps) = snd st
   \<and> map_of (fst (redecode_props st kps)) =
     map_of (fst st) ++
     map_of (rev (map (\<lambda>(k, p). (TextDecoder_decode False (TextEncoder_encode k), redecode p))
       kps))"
proof (induction kps arbitrary: st)
  case Nil
  show ?case by simp
next
  case (Cons kp kps)
  obtain k p where kp: "kp = (k, p)" by (cases kp)
  from Cons.prems show ?case
    unfolding kp
    by (auto simp: Cons.IH set_property_other map_of_put_property fun_eq_iff map_add_def
        split: option.splits)
qed

text \<open>
  For every key but \<open>__proto__\<close> the decoder does what claim C9 says. Let an object
  payload hold the pairs \<open>kps\<close> in order, the same key any number of times. The decoder
  returns an object, and what a key has in it is the value of the last pair with that
  key (\<open>map_of\<close> finds the first pair of the reversed list).
\<close>

lemma duplicate_keys:
  assumes "encoding (VObject kps) bs" and "proto_free_props kps"
  shows "\<exists>res. parser default_options [] bs = Inr (VObject res, [])
    \<and> map_of res =
        map_of (rev (map (\<lambda>(k, p). (TextDecoder_decode False (TextEncoder_encode k), redecode p))
          kps))"
proof -
  from parser_encoding(1) [OF refl assms(1), of default_options "[]" "[]"]
  have "parser default_options [] bs =
      Inr (VObject (fst (redecode_props new_object kps)), [])"
    by (simp add: expect_default answer_def del: expect.simps)
  with redecode_props_proto_free [OF assms(2), of new_object] show ?thesis
    by (simp add: new_object_def)
qed

lemma proto_bytes:
  "TextDecoder_decode False [95, 95, 112, 114, 111, 116, 111, 95, 95] = proto_key"
proof -
  have "TextEncoder_encode proto_key = [95, 95, 112, 114, 111, 116, 111, 95, 95]"
    by (simp add: TextEncoder_encode_def utf8_bytes_def is_surrogate_def proto_key_def)
  moreover have "TextDecoder_decode False (TextEncoder_encode proto_key) = strip_bom proto_key"
    by (rule TextDecoder_decode_encode)
       (simp add: proto_key_def scalar_value_def is_surrogate_def)
  ultimately show ?thesis by (simp add: proto_key_def)
qed

lemma getUint32_bytes: "getUint32 (a # b # c # d # bs) =
    ((unat a * 256 + unat b) * 256 + unat c) * 256 + unat d"
  by (simp add: getUint32_def be_nat_def)

lemma a_bytes: "TextDecoder_decode False [97] = [97]"
  using TextDecoder_decode_encode [of "[97]" False]
  by (simp add: TextEncoder_encode_def utf8_bytes_def is_surrogate_def scalar_value_def)

text \<open>
  An object payload with the key \<open>a\<close> twice, first with \<open>true\<close> and then with \<open>false\<close>:
  the decoder returns \<open>{a: false}\<close>.
\<close>

lemma duplicate_key_a:
  "parser default_options []
     [7, 0, 0, 0, 24,
      4, 0, 0, 0, 1, 97, 0, 0, 0, 0, 2, 1,
      4, 0, 0, 0, 1, 97, 0, 0, 0, 0, 2, 0,
      0, 0, 0, 0] = Inr (VObject [([97], VBoolean False)], [])"
  by (simp add: parser_Cons default_options_def splitChunkedStream.simps getUint32_bytes
      parse_object.simps readEnoughSize_def readChunkedStream_def a_bytes
      parse_boolean_def set_property_def new_object_def proto_key_def Let_def)

text \<open>
  An object payload with the key \<open>__proto__\<close> twice, first with \<open>null\<close> and then with
  \<open>true\<close>: the first assignment makes the prototype \<open>null\<close>, and the second stores an
  own property.
\<close>

lemma proto_key_after_null:
  "parser default_options []
     [7, 0, 0, 0, 39,
      4, 0, 0, 0, 9, 95, 95, 112, 114, 111, 116, 111, 95, 95, 0, 0, 0, 0, 0,
      4, 0, 0, 0, 9, 95, 95, 112, 114, 111, 116, 111, 95, 95, 0, 0, 0, 0, 2, 1,
      0, 0, 0, 0] = Inr (VObject [(proto_key, VBoolean True)], [])"
  by (simp add: parser_Cons default_options_def splitChunkedStream.simps getUint32_bytes
      parse_object.simps readEnoughSize_def readChunkedStream_def proto_bytes
      parse_boolean_def set_property_def new_object_def Let_def)

text \<open>
  Claim C9 at the key \<open>__proto__\<close>. The payload holds the key \<open>__proto__\<close> twice, first
  with \<open>true\<close> and then with \<open>false\<close>. Decoding succeeds, and the object it returns has
  no property at all: neither assignment stores anything.
\<close>

theorem duplicate_proto_key:
  "parser default_options []
     [7, 0, 0, 0, 40,
      4, 0, 0, 0, 9, 95, 95, 112, 114, 111, 116, 111, 95, 95, 0, 0, 0, 0, 2, 1,
      4, 0, 0, 0, 9, 95, 95, 112, 114, 111, 116, 111, 95, 95, 0, 0, 0, 0, 2, 0,
      0, 0, 0, 0] = Inr (VObject [], [])"
  by (simp add: parser_Cons default_options_def splitChunkedStream.simps getUint32_bytes
      parse_object.simps readEnoughSize_def readChunkedStream_def proto_bytes
      parse_boolean_def set_property_def new_object_def Let_def)

end
